theory Spec2Isabelle
  imports Main "HOL-Library.Product_Lexorder" "HOL-Library.List_Lexorder" "HOL-Library.Char_ord"
begin

section \<open>Weighted graph and Dijkstra's algorithm (task3.py)\<close>

text \<open>
  Vertices are values of a totally ordered type (the heap compares \<open>(distance, vertex)\<close>
  tuples, so Python needs the vertices comparable); the demo uses strings. Edge weights
  are integers, as in the sample graph. A distance is an integer or \<open>float('infinity')\<close>.
  Exceptions are values: a function that can raise returns \<open>error + 'a\<close>.
\<close>

datatype error = KeyError | IndexError

datatype dist = Dist int | PosInf

text \<open>\<open>new_distance < distances[neighbor]\<close>: an integer against an integer or infinity.\<close>

fun lt_dist :: "int \<Rightarrow> dist \<Rightarrow> bool" where
  "lt_dist n (Dist m) = (n < m)"
| "lt_dist n PosInf = True"

subsection \<open>class Graph\<close>

text \<open>
  \<open>vertices\<close> is a set, \<open>edges\<close> a \<open>defaultdict(list)\<close>: a dictionary whose lookup
  of a missing key stores an empty list under that key and returns it.
\<close>

record 'v graph =
  vertices :: "'v set"
  edges :: "'v \<rightharpoonup> ('v \<times> int) list"

definition Graph :: "'v graph" where
  "Graph = \<lparr>vertices = {}, edges = Map.empty\<rparr>"

text \<open>The list a lookup \<open>self.edges[v]\<close> yields, whether or not the key is present.\<close>

definition nbrs :: "'v graph \<Rightarrow> 'v \<Rightarrow> ('v \<times> int) list" where
  "nbrs g v = (case edges g v of None \<Rightarrow> [] | Some l \<Rightarrow> l)"

definition add_vertex :: "'v graph \<Rightarrow> 'v \<Rightarrow> 'v graph" where
  "add_vertex g vertex = g\<lparr>vertices := insert vertex (vertices g)\<rparr>"

definition add_edge :: "'v graph \<Rightarrow> 'v \<Rightarrow> 'v \<Rightarrow> int \<Rightarrow> 'v graph" where
  "add_edge g from_vertex to_vertex weight =
     (let g1 = g\<lparr>vertices := insert from_vertex (vertices g)\<rparr>;
          g2 = g1\<lparr>vertices := insert to_vertex (vertices g1)\<rparr>;
          g3 = g2\<lparr>edges := (edges g2)(from_vertex \<mapsto> nbrs g2 from_vertex @ [(to_vertex, weight)])\<rparr>
      in g3\<lparr>edges := (edges g3)(to_vertex \<mapsto> nbrs g3 to_vertex @ [(from_vertex, weight)])\<rparr>)"

text \<open>\<open>get_neighbors\<close> returns the list and the graph as the lookup leaves it.\<close>

definition get_neighbors :: "'v graph \<Rightarrow> 'v \<Rightarrow> ('v \<times> int) list \<times> 'v graph" where
  "get_neighbors g vertex =
     (case edges g vertex of
        None \<Rightarrow> ([], g\<lparr>edges := (edges g)(vertex \<mapsto> [])\<rparr>)
      | Some l \<Rightarrow> (l, g))"

text \<open>A graph is built by a sequence of calls of its two construction methods.\<close>

datatype 'v op = AddVertex 'v | AddEdge 'v 'v int

fun apply_op :: "'v graph \<Rightarrow> 'v op \<Rightarrow> 'v graph" where
  "apply_op g (AddVertex v) = add_vertex g v"
| "apply_op g (AddEdge u v w) = add_edge g u v w"

definition build :: "'v op list \<Rightarrow> 'v graph" where
  "build ops = foldl apply_op Graph ops"

subsection \<open>heapq\<close>

text \<open>
  The heap is the library's; it is modelled by its contract. The list holds the entries
  of the heap, \<open>heappush\<close> adds one, \<open>heappop\<close> removes and returns the least entry
  in the order of Python tuples (first component, then second), and raises
  \<open>IndexError\<close> on an empty heap. Two entries that are least are equal tuples.
\<close>

definition heappush :: "'a list \<Rightarrow> 'a \<Rightarrow> 'a list" where
  "heappush q x = x # q"

definition heappop :: "('a::linorder) list \<Rightarrow> error + ('a \<times> 'a list)" where
  "heappop q = (if q = [] then Inl IndexError
                else let m = Min (set q) in Inr (m, remove1 m q))"

subsection \<open>dijkstra\<close>

record 'v state =
  distances :: "'v \<rightharpoonup> dist"
  previous :: "'v \<rightharpoonup> 'v option"
  pq :: "(int \<times> 'v) list"
  visited :: "'v set"
  graph :: "'v graph"

definition init :: "'v graph \<Rightarrow> 'v \<Rightarrow> 'v state" where
  "init g start_vertex =
     \<lparr>distances = (\<lambda>v. if v \<in> vertices g then Some PosInf else None)(start_vertex \<mapsto> Dist 0),
      previous = (\<lambda>v. if v \<in> vertices g then Some None else None),
      pq = [(0, start_vertex)],
      visited = {},
      graph = g\<rparr>"

text \<open>One pass of the body of the \<open>for\<close> loop, for the pair \<open>(neighbor, weight)\<close>.\<close>

definition relax_edge :: "'v \<Rightarrow> int \<Rightarrow> 'v \<times> int \<Rightarrow> 'v state \<Rightarrow> error + 'v state" where
  "relax_edge current_vertex current_distance e s =
     (case e of (neighbor, weight) \<Rightarrow>
        if neighbor \<in> visited s then Inr s
        else let new_distance = current_distance + weight in
          (case distances s neighbor of
             None \<Rightarrow> Inl KeyError
           | Some old \<Rightarrow>
               if lt_dist new_distance old
               then Inr (s\<lparr>distances := (distances s)(neighbor \<mapsto> Dist new_distance),
                           previous := (previous s)(neighbor \<mapsto> Some current_vertex),
                           pq := heappush (pq s) (new_distance, neighbor)\<rparr>)
               else Inr s))"

fun relax :: "'v \<Rightarrow> int \<Rightarrow> ('v \<times> int) list \<Rightarrow> 'v state \<Rightarrow> error + 'v state" where
  "relax u d [] s = Inr s"
| "relax u d (e # es) s =
     (case relax_edge u d e s of Inl err \<Rightarrow> Inl err | Inr s' \<Rightarrow> relax u d es s')"

text \<open>One pass of the body of the \<open>while\<close> loop.\<close>

definition step :: "('v::linorder) state \<Rightarrow> error + 'v state" where
  "step s =
     (case heappop (pq s) of
        Inl err \<Rightarrow> Inl err
      | Inr ((current_distance, current_vertex), q) \<Rightarrow>
          if current_vertex \<in> visited s then Inr (s\<lparr>pq := q\<rparr>)
          else (case get_neighbors (graph s) current_vertex of (ns, g') \<Rightarrow>
                  relax current_vertex current_distance ns
                    (s\<lparr>pq := q, visited := insert current_vertex (visited s), graph := g'\<rparr>)))"

text \<open>The \<open>while pq\<close> loop; \<open>None\<close> is a loop that does not end.\<close>

partial_function (option) dijkstra_loop :: "('v::linorder) state \<Rightarrow> (error + 'v state) option" where
  "dijkstra_loop s =
     (if pq s = [] then Some (Inr s)
      else (case step s of Inl err \<Rightarrow> Some (Inl err) | Inr s' \<Rightarrow> dijkstra_loop s'))"

text \<open>
  The call returns the two dictionaries; the graph object, which the lookups may have
  changed in place, is returned beside them.
\<close>

definition dijkstra ::
  "('v::linorder) graph \<Rightarrow> 'v \<Rightarrow> (error + (('v \<rightharpoonup> dist) \<times> ('v \<rightharpoonup> 'v option) \<times> 'v graph)) option" where
  "dijkstra g start_vertex =
     (case dijkstra_loop (init g start_vertex) of
        None \<Rightarrow> None
      | Some (Inl err) \<Rightarrow> Some (Inl err)
      | Some (Inr s) \<Rightarrow> Some (Inr (distances s, previous s, graph s)))"

text \<open>The loop body run at most \<open>n\<close> times: the state after \<open>n\<close> passes (or at the exit).\<close>

fun run :: "nat \<Rightarrow> ('v::linorder) state \<Rightarrow> error + 'v state" where
  "run 0 s = Inr s"
| "run (Suc n) s =
     (if pq s = [] then Inr s
      else (case step s of Inl err \<Rightarrow> Inl err | Inr s' \<Rightarrow> run n s'))"

subsection \<open>reconstruct_path\<close>

text \<open>
  The \<open>while current is not None\<close> loop: \<open>current\<close> is a vertex or \<open>None\<close>, and the
  lookup \<open>previous[current]\<close> raises \<open>KeyError\<close> on a missing key.
\<close>

partial_function (option) walk_back ::
  "('v \<rightharpoonup> 'v option) \<Rightarrow> 'v option \<Rightarrow> 'v list \<Rightarrow> (error + 'v list) option" where
  "walk_back prev current path =
     (case current of
        None \<Rightarrow> Some (Inr path)
      | Some c \<Rightarrow>
          (case prev c of
             None \<Rightarrow> Some (Inl KeyError)
           | Some nxt \<Rightarrow> walk_back prev nxt (path @ [c])))"

text \<open>The result \<open>Inr None\<close> is Python's \<open>return None\<close>, the signal that no path exists.\<close>

definition reconstruct_path ::
  "('v \<rightharpoonup> 'v option) \<Rightarrow> 'v \<Rightarrow> 'v \<Rightarrow> (error + 'v list option) option" where
  "reconstruct_path prev start end_vertex =
     (case walk_back prev (Some end_vertex) [] of
        None \<Rightarrow> None
      | Some (Inl err) \<Rightarrow> Some (Inl err)
      | Some (Inr path) \<Rightarrow>
          (case rev path of
             [] \<Rightarrow> Some (Inl IndexError)
           | first # rest \<Rightarrow>
               if first \<noteq> start then Some (Inr None) else Some (Inr (Some (first # rest)))))"

subsection \<open>create_sample_graph\<close>

definition create_sample_graph :: "string graph" where
  "create_sample_graph = build
     [AddEdge ''A'' ''B'' 4, AddEdge ''A'' ''C'' 2, AddEdge ''B'' ''C'' 1,
      AddEdge ''B'' ''D'' 5, AddEdge ''C'' ''D'' 8, AddEdge ''C'' ''E'' 10,
      AddEdge ''D'' ''E'' 2, AddEdge ''D'' ''F'' 6, AddEdge ''E'' ''F'' 3]"

subsection \<open>Paths\<close>

text \<open>
  \<open>walk g s v d\<close>: some sequence of edges of the graph leads from \<open>s\<close> to \<open>v\<close> and
  its weights sum to \<open>d\<close>. A vertex is reachable when such a sequence exists.
\<close>

inductive walk :: "'v graph \<Rightarrow> 'v \<Rightarrow> 'v \<Rightarrow> int \<Rightarrow> bool" for g :: "'v graph" and s :: 'v where
  walk_here: "walk g s s 0"
| walk_edge: "walk g s u d \<Longrightarrow> (v, w) \<in> set (nbrs g u) \<Longrightarrow> walk g s v (d + w)"

definition reachable :: "'v graph \<Rightarrow> 'v \<Rightarrow> 'v \<Rightarrow> bool" where
  "reachable g s v = (\<exists>d. walk g s v d)"

subsection \<open>What a caller observes of a call\<close>

text \<open>
  As \<open>demo\<close> uses the result: \<open>distances[v]\<close>, \<open>reconstruct_path(previous, start, v)\<close>,
  and the entry of the graph's adjacency dictionary under a key after the call
  (\<open>Some None\<close>: the key is absent).
\<close>

declare dijkstra_loop.simps [code]
declare walk_back.simps [code]

definition distance_to :: "('v::linorder) graph \<Rightarrow> 'v \<Rightarrow> 'v \<Rightarrow> dist option" where
  "distance_to g start v =
     (case dijkstra g start of Some (Inr (d, p, g')) \<Rightarrow> d v | _ \<Rightarrow> None)"

definition path_to :: "('v::linorder) graph \<Rightarrow> 'v \<Rightarrow> 'v \<Rightarrow> (error + 'v list option) option" where
  "path_to g start v =
     (case dijkstra g start of
        Some (Inr (d, p, g')) \<Rightarrow> reconstruct_path p start v
      | Some (Inl err) \<Rightarrow> Some (Inl err)
      | None \<Rightarrow> None)"

definition edges_after :: "('v::linorder) graph \<Rightarrow> 'v \<Rightarrow> 'v \<Rightarrow> ('v \<times> int) list option option" where
  "edges_after g start v =
     (case dijkstra g start of Some (Inr (d, p, g')) \<Rightarrow> Some (edges g' v) | _ \<Rightarrow> None)"

text \<open>The total weight of a sequence of vertices, along the first listed edge of each hop.\<close>

fun path_weight :: "'v graph \<Rightarrow> 'v list \<Rightarrow> int option" where
  "path_weight g [] = Some 0"
| "path_weight g [v] = Some 0"
| "path_weight g (u # v # vs) =
     (case map_of (nbrs g u) v of
        None \<Rightarrow> None
      | Some w \<Rightarrow> map_option (\<lambda>r. w + r) (path_weight g (v # vs)))"

subsection \<open>Notions used in the proofs\<close>

text \<open>What every built graph satisfies: finitely many vertices, and edges between them.\<close>

definition graph_ok :: "'v graph \<Rightarrow> bool" where
  "graph_ok g \<longleftrightarrow> finite (vertices g) \<and>
     (\<forall>u v w. (v, w) \<in> set (nbrs g u) \<longrightarrow> u \<in> vertices g \<and> v \<in> vertices g)"

text \<open>The measure that every pass of the main loop decreases.\<close>

definition mu :: "'v state \<Rightarrow> nat" where
  "mu s = length (pq s) + (\<Sum>v \<in> vertices (graph s) - visited s. length (nbrs (graph s) v))"

definition basic :: "'v graph \<Rightarrow> 'v state \<Rightarrow> bool" where
  "basic g s \<longleftrightarrow>
     vertices (graph s) = vertices g \<and> nbrs (graph s) = nbrs g \<and>
     dom (distances s) = vertices g \<and> dom (previous s) = vertices g \<and>
     snd ` set (pq s) \<subseteq> vertices g \<and> visited s \<subseteq> vertices g"

text \<open>What a run leaves of the graph: the vertices, every stored list, and only empty new lists.\<close>

definition graph_kept :: "'v graph \<Rightarrow> 'v graph \<Rightarrow> bool" where
  "graph_kept g g' \<longleftrightarrow>
     vertices g' = vertices g \<and>
     (\<forall>v l. edges g v = Some l \<longrightarrow> edges g' v = Some l) \<and>
     (\<forall>v. edges g v = None \<longrightarrow> edges g' v = None \<or> edges g' v = Some [])"

text \<open>
  A state for the examples: source 1 in the graph of \<open>add_edge(1, 2, 5)\<close>, after the
  first pass of the main loop.
\<close>

definition after_first_pass :: "nat state" where
  "after_first_pass =
     \<lparr>distances = [1 \<mapsto> Dist 0, 2 \<mapsto> Dist 5],
      previous = [1 \<mapsto> None, 2 \<mapsto> Some 1],
      pq = [(5, 2)],
      visited = {1},
      graph = build [AddEdge 1 2 5]\<rparr>"

text \<open>
  A state with a stale queue entry: source 1 in the graph of \<open>add_edge(1, 2, 5)\<close>,
  \<open>add_edge(1, 3, 1)\<close>, \<open>add_edge(3, 2, 1)\<close>, after three passes of the main loop. All
  vertices are visited and the entry \<open>(5, 2)\<close>, pushed in the first pass, is still queued.
\<close>

definition stale_entry_state :: "nat state" where
  "stale_entry_state =
     \<lparr>distances = [1 \<mapsto> Dist 0, 2 \<mapsto> Dist 2, 3 \<mapsto> Dist 1],
      previous = [1 \<mapsto> None, 2 \<mapsto> Some 3, 3 \<mapsto> Some 1],
      pq = [(5, 2)],
      visited = {1, 2, 3},
      graph = build [AddEdge 1 2 5, AddEdge 1 3 1, AddEdge 3 2 1]\<rparr>"

text \<open>
  The vertices passed to \<open>visited.add\<close> over the first \<open>n\<close> passes of the main loop, in
  order; and the number of \<open>add_edge\<close> calls in a construction.
\<close>

fun marked :: "nat \<Rightarrow> ('v::linorder) state \<Rightarrow> 'v list" where
  "marked 0 s = []"
| "marked (Suc n) s =
     (if pq s = [] then []
      else (case step s of
              Inl err \<Rightarrow> []
            | Inr s' \<Rightarrow>
                (if snd (Min (set (pq s))) \<in> visited s then [] else [snd (Min (set (pq s)))])
                @ marked n s'))"

fun edge_calls :: "'v op list \<Rightarrow> nat" where
  "edge_calls [] = 0"
| "edge_calls (AddVertex v # xs) = edge_calls xs"
| "edge_calls (AddEdge u v w # xs) = Suc (edge_calls xs)"

text \<open>
  The invariant of the main loop. Every recorded distance and every queue entry is the
  weight of a path from the source, and every visited vertex is reachable; a vertex at
  infinity has no predecessor; the source has no predecessor and is the first vertex
  visited; an unvisited vertex with a finite distance has a queue entry with that distance;
  every neighbour of a visited vertex is visited or has a finite distance. Inside the inner
  loop over the neighbours of \<open>u\<close> the last part holds of \<open>u\<close> for the pairs already
  passed (\<open>rest\<close> are the pairs to come).
\<close>

definition sound :: "'v graph \<Rightarrow> 'v \<Rightarrow> 'v state \<Rightarrow> bool" where
  "sound g src s \<longleftrightarrow>
     (\<forall>v k. distances s v = Some (Dist k) \<longrightarrow> walk g src v k) \<and>
     (\<forall>k v. (k, v) \<in> set (pq s) \<longrightarrow> walk g src v k) \<and>
     (\<forall>v \<in> visited s. reachable g src v)"

definition unreached_none :: "'v state \<Rightarrow> bool" where
  "unreached_none s \<longleftrightarrow> (\<forall>v. distances s v = Some PosInf \<longrightarrow> previous s v = Some None)"

definition source_first :: "'v \<Rightarrow> 'v state \<Rightarrow> bool" where
  "source_first src s \<longleftrightarrow>
     previous s src = Some None \<and>
     (src \<in> visited s \<or> (visited s = {} \<and> pq s = [(0, src)]))"

definition queued :: "'v state \<Rightarrow> bool" where
  "queued s \<longleftrightarrow>
     (\<forall>v k. v \<notin> visited s \<longrightarrow> distances s v = Some (Dist k) \<longrightarrow> (k, v) \<in> set (pq s))"

definition found :: "'v graph \<Rightarrow> 'v state \<Rightarrow> 'v \<Rightarrow> ('v \<times> int) list \<Rightarrow> bool" where
  "found g s u rest \<longleftrightarrow>
     (\<forall>v w. (v, w) \<in> set (nbrs g u) \<longrightarrow>
        (v, w) \<in> set rest \<or> v \<in> visited s \<or> (\<exists>k. distances s v = Some (Dist k)))"

definition invA :: "'v graph \<Rightarrow> 'v \<Rightarrow> 'v state \<Rightarrow> bool" where
  "invA g src s \<longleftrightarrow>
     sound g src s \<and> unreached_none s \<and> source_first src s \<and> queued s \<and>
     (\<forall>u \<in> visited s. found g s u [])"

definition midA :: "'v graph \<Rightarrow> 'v \<Rightarrow> 'v \<Rightarrow> int \<Rightarrow> ('v \<times> int) list \<Rightarrow> 'v state \<Rightarrow> bool" where
  "midA g src u d rest s \<longleftrightarrow>
     sound g src s \<and> unreached_none s \<and> source_first src s \<and> queued s \<and>
     u \<in> visited s \<and> walk g src u d \<and> set rest \<subseteq> set (nbrs g u) \<and>
     (\<forall>u' \<in> visited s. u' \<noteq> u \<longrightarrow> found g s u' []) \<and> found g s u rest"

text \<open>
  Weights that are not negative: in the calls that build the graph, and in the graph.
\<close>

fun nonneg_op :: "'v op \<Rightarrow> bool" where
  "nonneg_op (AddVertex v) = True"
| "nonneg_op (AddEdge u v w) = (0 \<le> w)"

definition nonneg :: "'v graph \<Rightarrow> bool" where
  "nonneg g \<longleftrightarrow> (\<forall>u v w. (v, w) \<in> set (nbrs g u) \<longrightarrow> 0 \<le> w)"

text \<open>
  The second part of the invariant, for weights that are not negative. The distance of a
  visited vertex is the least weight of a path from the source; a queue entry is no less
  than the distance recorded for its vertex; every edge out of a visited vertex is relaxed:
  the distance of its far end is at most the distance of the vertex plus the weight.
\<close>

definition settled :: "'v graph \<Rightarrow> 'v \<Rightarrow> 'v state \<Rightarrow> bool" where
  "settled g src s \<longleftrightarrow>
     (\<forall>v \<in> visited s. \<exists>k. distances s v = Some (Dist k) \<and> (\<forall>k'. walk g src v k' \<longrightarrow> k \<le> k'))"

definition bounded :: "'v state \<Rightarrow> bool" where
  "bounded s \<longleftrightarrow>
     (\<forall>k v. (k, v) \<in> set (pq s) \<longrightarrow> (\<exists>k'. distances s v = Some (Dist k') \<and> k' \<le> k))"

definition relaxed :: "'v graph \<Rightarrow> 'v state \<Rightarrow> 'v \<Rightarrow> ('v \<times> int) list \<Rightarrow> bool" where
  "relaxed g s u rest \<longleftrightarrow>
     (\<forall>v w. (v, w) \<in> set (nbrs g u) \<longrightarrow>
        (v, w) \<in> set rest \<or>
        (\<exists>ku kv. distances s u = Some (Dist ku) \<and> distances s v = Some (Dist kv) \<and> kv \<le> ku + w))"

definition invB :: "'v graph \<Rightarrow> 'v \<Rightarrow> 'v state \<Rightarrow> bool" where
  "invB g src s \<longleftrightarrow>
     settled g src s \<and> bounded s \<and> (\<forall>u \<in> visited s. relaxed g s u [])"

definition midB :: "'v graph \<Rightarrow> 'v \<Rightarrow> 'v \<Rightarrow> int \<Rightarrow> ('v \<times> int) list \<Rightarrow> 'v state \<Rightarrow> bool" where
  "midB g src u d rest s \<longleftrightarrow>
     settled g src s \<and> bounded s \<and> distances s u = Some (Dist d) \<and>
     (\<forall>u' \<in> visited s. u' \<noteq> u \<longrightarrow> relaxed g s u' []) \<and> relaxed g s u rest"

section \<open>Lemmas\<close>

subsection \<open>Building graphs\<close>

lemma nbrs_add_vertex: "nbrs (add_vertex g x) = nbrs g"
  by (rule ext) (simp add: nbrs_def add_vertex_def)

lemma vertices_add_vertex: "vertices (add_vertex g x) = insert x (vertices g)"
  by (simp add: add_vertex_def)

lemma nbrs_add_edge:
  "nbrs (add_edge g u v w) x =
     nbrs g x @ (if x = u then [(v, w)] else []) @ (if x = v then [(u, w)] else [])"
  by (simp add: nbrs_def add_edge_def Let_def)

lemma vertices_add_edge: "vertices (add_edge g u v w) = insert v (insert u (vertices g))"
  by (simp add: add_edge_def Let_def)

lemma build_Nil: "build [] = Graph"
  by (simp add: build_def)

lemma build_snoc: "build (ops @ [x]) = apply_op (build ops) x"
  by (simp add: build_def)

lemma nbrs_Graph: "nbrs Graph v = []"
  by (simp add: nbrs_def Graph_def)

lemma graph_ok_apply_op: "graph_ok g \<Longrightarrow> graph_ok (apply_op g x)"
proof (cases x)
  case (AddVertex v)
  assume "graph_ok g"
  then show ?thesis
    unfolding graph_ok_def AddVertex by (simp add: nbrs_add_vertex vertices_add_vertex)
next
  case (AddEdge u v w)
  assume "graph_ok g"
  then show ?thesis
    unfolding graph_ok_def AddEdge
    by (simp add: nbrs_add_edge vertices_add_edge split: if_splits)
qed

lemma build_ok: "graph_ok (build ops)"
proof (induction ops rule: rev_induct)
  case Nil
  show ?case by (simp add: build_Nil graph_ok_def nbrs_Graph) (simp add: Graph_def)
next
  case (snoc x xs)
  then show ?case by (simp add: build_snoc graph_ok_apply_op)
qed

lemma symmetric_apply_op:
  assumes "\<And>a b c. ((b, c) \<in> set (nbrs g a)) = ((a, c) \<in> set (nbrs g b))"
  shows "((v, w) \<in> set (nbrs (apply_op g x) u)) = ((u, w) \<in> set (nbrs (apply_op g x) v))"
proof (cases x)
  case (AddVertex a)
  then show ?thesis using assms by (simp add: nbrs_add_vertex)
next
  case (AddEdge a b c)
  then show ?thesis using assms [where a=u and b=v and c=w] by (auto simp: nbrs_add_edge)
qed

lemma build_symmetric:
  "((v, w) \<in> set (nbrs (build ops) u)) = ((u, w) \<in> set (nbrs (build ops) v))"
proof (induction ops arbitrary: u v w rule: rev_induct)
  case Nil
  show ?case by (simp add: build_Nil nbrs_Graph)
next
  case (snoc x xs)
  show ?case unfolding build_snoc by (rule symmetric_apply_op) (rule snoc.IH)
qed

lemma nbrs_apply_op_mono: "e \<in> set (nbrs g a) \<Longrightarrow> e \<in> set (nbrs (apply_op g x) a)"
  by (cases x) (simp_all add: nbrs_add_vertex nbrs_add_edge)

lemma vertices_apply_op_mono: "a \<in> vertices g \<Longrightarrow> a \<in> vertices (apply_op g x)"
  by (cases x) (simp_all add: vertices_add_vertex vertices_add_edge)

lemma foldl_apply_op_nbrs: "e \<in> set (nbrs g a) \<Longrightarrow> e \<in> set (nbrs (foldl apply_op g ops) a)"
  by (induction ops arbitrary: g) (simp_all add: nbrs_apply_op_mono)

lemma foldl_apply_op_vertices: "a \<in> vertices g \<Longrightarrow> a \<in> vertices (foldl apply_op g ops)"
  by (induction ops arbitrary: g) (simp_all add: vertices_apply_op_mono)

subsection \<open>The heap, the inner loop and one pass of the main loop\<close>

lemma heappop_nonempty:
  "q \<noteq> [] \<Longrightarrow> heappop q = Inr (Min (set q), remove1 (Min (set q)) q)"
  by (simp add: heappop_def Let_def)

lemma Min_in_pq: "q \<noteq> [] \<Longrightarrow> Min (set q) \<in> set q"
  by (rule Min_in) simp_all

lemma Min_le_pq: "x \<in> set q \<Longrightarrow> Min (set q) \<le> x"
  by (rule Min_le) simp_all

lemma get_neighbors_fst: "fst (get_neighbors g v) = nbrs g v"
  by (simp add: get_neighbors_def nbrs_def split: option.splits)

lemma get_neighbors_nbrs: "nbrs (snd (get_neighbors g v)) = nbrs g"
  by (rule ext) (simp add: get_neighbors_def nbrs_def split: option.splits)

lemma get_neighbors_vertices: "vertices (snd (get_neighbors g v)) = vertices g"
  by (simp add: get_neighbors_def split: option.splits)

lemma relax_edge_frame:
  assumes "relax_edge u d e s = Inr r"
  shows "visited r = visited s" and "graph r = graph s"
    and "dom (distances r) = dom (distances s)"
    and "dom (previous s) \<subseteq> dom (previous r)"
    and "dom (previous r) \<subseteq> insert (fst e) (dom (previous s))"
    and "snd ` set (pq r) \<subseteq> insert (fst e) (snd ` set (pq s))"
    and "length (pq r) \<le> Suc (length (pq s))"
  using assms
  by (cases e; auto simp: relax_edge_def heappush_def Let_def split: if_splits option.splits)+

lemma relax_edge_defined:
  assumes "fst e \<in> dom (distances s)"
  shows "\<exists>r. relax_edge u d e s = Inr r"
  using assms by (cases e) (auto simp: relax_edge_def Let_def)

lemma relax_Cons_Inr:
  assumes "relax u d (e # es) s = Inr r"
  obtains t where "relax_edge u d e s = Inr t" "relax u d es t = Inr r"
  using assms by (cases "relax_edge u d e s") simp_all

lemma relax_frame_conj:
  "relax u d es s = Inr r \<Longrightarrow>
     visited r = visited s \<and> graph r = graph s \<and>
     dom (distances r) = dom (distances s) \<and>
     dom (previous s) \<subseteq> dom (previous r) \<and>
     dom (previous r) \<subseteq> fst ` set es \<union> dom (previous s) \<and>
     snd ` set (pq r) \<subseteq> fst ` set es \<union> snd ` set (pq s) \<and>
     length (pq r) \<le> length (pq s) + length es"
proof (induction es arbitrary: s)
  case Nil
  then show ?case by simp
next
  case (Cons e es)
  from Cons.prems obtain t where t: "relax_edge u d e s = Inr t" "relax u d es t = Inr r"
    by (rule relax_Cons_Inr)
  note a = relax_edge_frame [OF t(1)]
  from Cons.IH [OF t(2)] have
    b: "visited r = visited t" "graph r = graph t" "dom (distances r) = dom (distances t)"
       "dom (previous t) \<subseteq> dom (previous r)"
       "dom (previous r) \<subseteq> fst ` set es \<union> dom (previous t)"
       "snd ` set (pq r) \<subseteq> fst ` set es \<union> snd ` set (pq t)"
       "length (pq r) \<le> length (pq t) + length es"
    by simp_all
  have "visited r = visited s" "graph r = graph s" "dom (distances r) = dom (distances s)"
    using a(1-3) b(1-3) by simp_all
  moreover have "dom (previous s) \<subseteq> dom (previous r)" using a(4) b(4) by (rule subset_trans)
  moreover have "dom (previous r) \<subseteq> fst ` set (e # es) \<union> dom (previous s)"
    using a(5) b(5) unfolding list.set image_insert by blast
  moreover have "snd ` set (pq r) \<subseteq> fst ` set (e # es) \<union> snd ` set (pq s)"
    using a(6) b(6) unfolding list.set image_insert by blast
  moreover have "length (pq r) \<le> length (pq s) + length (e # es)"
    using a(7) b(7) by simp
  ultimately show ?case by simp
qed

lemma relax_frame:
  assumes "relax u d es s = Inr r"
  shows "visited r = visited s" and "graph r = graph s"
    and "dom (distances r) = dom (distances s)"
    and "dom (previous s) \<subseteq> dom (previous r)"
    and "dom (previous r) \<subseteq> fst ` set es \<union> dom (previous s)"
    and "snd ` set (pq r) \<subseteq> fst ` set es \<union> snd ` set (pq s)"
    and "length (pq r) \<le> length (pq s) + length es"
  using relax_frame_conj [OF assms] by simp_all

lemma relax_defined:
  "fst ` set es \<subseteq> dom (distances s) \<Longrightarrow> \<exists>r. relax u d es s = Inr r"
proof (induction es arbitrary: s)
  case Nil
  show ?case by simp
next
  case (Cons e es)
  from Cons.prems have "fst e \<in> dom (distances s)" by simp
  from relax_edge_defined [OF this] obtain t where t: "relax_edge u d e s = Inr t" by blast
  have "dom (distances t) = dom (distances s)" by (rule relax_edge_frame [OF t])
  with Cons.prems have "fst ` set es \<subseteq> dom (distances t)" by simp
  from Cons.IH [OF this] obtain r where "relax u d es t = Inr r" by blast
  with t show ?case by simp
qed

text \<open>The three shapes of a pass of the loop body.\<close>

lemma step_stale:
  assumes "pq s \<noteq> []" "snd (Min (set (pq s))) \<in> visited s"
  shows "step s = Inr (s\<lparr>pq := remove1 (Min (set (pq s))) (pq s)\<rparr>)"
proof -
  obtain d u where m: "Min (set (pq s)) = (d, u)" by (cases "Min (set (pq s))")
  show ?thesis using assms by (simp add: step_def heappop_nonempty m)
qed

lemma step_visit:
  assumes "pq s \<noteq> []" "snd (Min (set (pq s))) \<notin> visited s"
  shows "step s = relax (snd (Min (set (pq s)))) (fst (Min (set (pq s))))
           (nbrs (graph s) (snd (Min (set (pq s)))))
           (s\<lparr>pq := remove1 (Min (set (pq s))) (pq s),
              visited := insert (snd (Min (set (pq s)))) (visited s),
              graph := snd (get_neighbors (graph s) (snd (Min (set (pq s)))))\<rparr>)"
proof -
  obtain d u where m: "Min (set (pq s)) = (d, u)" by (cases "Min (set (pq s))")
  obtain ns g' where n: "get_neighbors (graph s) u = (ns, g')" by (cases "get_neighbors (graph s) u")
  have "ns = nbrs (graph s) u" using get_neighbors_fst [of "graph s" u] n by simp
  then show ?thesis using assms by (simp add: step_def heappop_nonempty m n)
qed

lemma step_basic:
  assumes ok: "graph_ok g" and b: "basic g s" and ne: "pq s \<noteq> []"
  shows "\<exists>t. step s = Inr t \<and> basic g t \<and> mu t < mu s"
proof -
  let ?m = "Min (set (pq s))"
  let ?u = "snd ?m"
  have m_in: "?m \<in> set (pq s)" using ne by (rule Min_in_pq)
  then have len: "length (remove1 ?m (pq s)) = length (pq s) - 1" "length (pq s) > 0"
    using ne by (simp_all add: length_remove1)
  have uV: "?u \<in> vertices g" using m_in b by (auto simp: basic_def)
  have sub: "snd ` set (remove1 ?m (pq s)) \<subseteq> vertices g"
  proof -
    have "snd ` set (remove1 ?m (pq s)) \<subseteq> snd ` set (pq s)"
      by (rule image_mono) (rule set_remove1_subset)
    moreover have "snd ` set (pq s) \<subseteq> vertices g" using b by (simp add: basic_def)
    ultimately show ?thesis by (rule subset_trans)
  qed
  show ?thesis
  proof (cases "?u \<in> visited s")
    case True
    let ?t = "s\<lparr>pq := remove1 ?m (pq s)\<rparr>"
    have "step s = Inr ?t" using ne True by (rule step_stale)
    moreover have "basic g ?t" using b sub by (simp add: basic_def)
    moreover have "mu ?t < mu s" using len by (simp add: mu_def)
    ultimately show ?thesis by blast
  next
    case False
    define u where "u = snd (Min (set (pq s)))"
    define s1 where "s1 = s\<lparr>pq := remove1 ?m (pq s), visited := insert u (visited s),
                            graph := snd (get_neighbors (graph s) u)\<rparr>"
    define es where "es = nbrs (graph s) u"
    have st: "step s = relax u (fst ?m) es s1"
      unfolding u_def s1_def es_def using ne False by (rule step_visit)
    have nb: "nbrs (graph s) = nbrs g" and vs: "vertices (graph s) = vertices g"
      using b by (simp_all add: basic_def)
    have es_V: "fst ` set es \<subseteq> vertices g" using ok nb by (force simp: graph_ok_def es_def)
    have s1: "visited s1 = insert u (visited s)" "graph s1 = snd (get_neighbors (graph s) u)"
      "distances s1 = distances s" "previous s1 = previous s" "pq s1 = remove1 ?m (pq s)"
      by (simp_all add: s1_def)
    have es_sub: "fst ` set es \<subseteq> dom (distances s1)" using es_V b by (simp add: basic_def s1)
    from relax_defined [OF es_sub] obtain t where t1: "relax u (fst ?m) es s1 = Inr t"
      by blast
    note t = t1 relax_frame [OF t1]
    have uV': "u \<in> vertices g" using uV by (simp add: u_def)
    have "basic g t"
      unfolding basic_def
    proof (intro conjI)
      show "vertices (graph t) = vertices g" by (simp add: t(3) s1 get_neighbors_vertices vs)
      show "nbrs (graph t) = nbrs g" by (simp add: t(3) s1 get_neighbors_nbrs nb)
      show "dom (distances t) = vertices g" using b by (simp add: t(4) s1 basic_def)
      have "dom (previous s) = vertices g" using b by (simp add: basic_def)
      then show "dom (previous t) = vertices g" using t(5,6) es_V unfolding s1 by blast
      show "snd ` set (pq t) \<subseteq> vertices g" using t(7) es_V sub unfolding s1 by blast
      have "visited s \<subseteq> vertices g" using b by (simp add: basic_def)
      then show "visited t \<subseteq> vertices g" using uV' by (simp add: t(2) s1)
    qed
    moreover have "mu t < mu s"
    proof -
      have fin: "finite (vertices g - visited s)" using ok by (simp add: graph_ok_def)
      have mem: "u \<in> vertices g - visited s" using uV' False by (simp add: u_def)
      have eq: "vertices g - insert u (visited s) = (vertices g - visited s) - {u}" by auto
      have "(\<Sum>v \<in> vertices g - visited s. length (nbrs g v)) =
            length (nbrs g u) + (\<Sum>v \<in> vertices g - insert u (visited s). length (nbrs g v))"
        unfolding eq using fin mem by (rule sum.remove)
      then have "mu s = length (pq s) + length (nbrs g u) +
            (\<Sum>v \<in> vertices g - insert u (visited s). length (nbrs g v))"
        by (simp add: mu_def nb vs)
      moreover have "mu t = length (pq t) +
            (\<Sum>v \<in> vertices g - insert u (visited s). length (nbrs g v))"
        by (simp add: mu_def t(2,3) s1 get_neighbors_nbrs get_neighbors_vertices nb vs)
      moreover have "length (pq s1) = length (pq s) - 1" using len(1) by (simp add: s1)
      moreover have "length es = length (nbrs g u)" by (simp add: es_def nb)
      ultimately show ?thesis using t(8) len(2) by linarith
    qed
    ultimately show ?thesis using st t(1) by simp
  qed
qed

lemma run_loop:
  "run n s = Inr r \<Longrightarrow> pq r = [] \<Longrightarrow> dijkstra_loop s = Some (Inr r)"
proof (induction n arbitrary: s)
  case 0
  then show ?case by (simp add: dijkstra_loop.simps)
next
  case (Suc n)
  show ?case
  proof (cases "pq s = []")
    case True
    with Suc.prems show ?thesis by (simp add: dijkstra_loop.simps)
  next
    case False
    with Suc.prems obtain t where t: "step s = Inr t" "run n t = Inr r"
      by (cases "step s") simp_all
    from Suc.IH [OF t(2) Suc.prems(2)] have "dijkstra_loop t = Some (Inr r)" .
    with False t(1) show ?thesis by (subst dijkstra_loop.simps) simp
  qed
qed

lemma run_total:
  assumes ok: "graph_ok g"
  shows "basic g s \<Longrightarrow> mu s \<le> n \<Longrightarrow> \<exists>r. run n s = Inr r \<and> pq r = []"
proof (induction n arbitrary: s)
  case 0
  then show ?case by (simp add: mu_def)
next
  case (Suc n)
  show ?case
  proof (cases "pq s = []")
    case True
    then show ?thesis by simp
  next
    case False
    from step_basic [OF ok Suc.prems(1) False] obtain t where
      t: "step s = Inr t" "basic g t" "mu t < mu s" by blast
    with Suc.prems(2) have "mu t \<le> n" by simp
    from Suc.IH [OF t(2) this] show ?thesis using False t(1) by simp
  qed
qed

lemma run_invariant:
  assumes "I s" "run n s = Inr r"
    and "\<And>t t'. I t \<Longrightarrow> pq t \<noteq> [] \<Longrightarrow> step t = Inr t' \<Longrightarrow> I t'"
  shows "I r"
  using assms(1,2)
proof (induction n arbitrary: s)
  case 0
  then show ?case by simp
next
  case (Suc n)
  show ?case
  proof (cases "pq s = []")
    case True
    with Suc.prems show ?thesis by simp
  next
    case False
    with Suc.prems(2) obtain t where t: "step s = Inr t" "run n t = Inr r"
      by (cases "step s") simp_all
    from assms(3) [OF Suc.prems(1) False t(1)] have "I t" .
    from Suc.IH [OF this t(2)] show ?thesis .
  qed
qed

lemma relax_invariant:
  assumes "I es s" "relax u d es s = Inr r"
    and "\<And>e es' t t'. I (e # es') t \<Longrightarrow> relax_edge u d e t = Inr t' \<Longrightarrow> I es' t'"
  shows "I [] r"
  using assms(1,2)
proof (induction es arbitrary: s)
  case Nil
  then show ?case by simp
next
  case (Cons e es)
  from Cons.prems(2) obtain t where t: "relax_edge u d e s = Inr t" "relax u d es t = Inr r"
    by (rule relax_Cons_Inr)
  from assms(3) [OF Cons.prems(1) t(1)] have "I es t" .
  from Cons.IH [OF this t(2)] show ?case .
qed

lemma basic_init: "src \<in> vertices g \<Longrightarrow> basic g (init g src)"
  by (auto simp: basic_def init_def split: if_splits)

lemma mu_init: "mu (init g src) = Suc (\<Sum>v \<in> vertices g. length (nbrs g v))"
  by (simp add: mu_def init_def)

subsection \<open>Invariants of a run that returns; the graph after a run\<close>

lemma loop_partial:
  assumes "dijkstra_loop s = Some x"
    and "\<And>t t'. I t \<Longrightarrow> pq t \<noteq> [] \<Longrightarrow> step t = Inr t' \<Longrightarrow> I t'"
  shows "\<forall>r. x = Inr r \<longrightarrow> I s \<longrightarrow> I r \<and> pq r = []"
proof (rule dijkstra_loop.raw_induct
    [where P = "\<lambda>s x. \<forall>r. x = Inr r \<longrightarrow> I s \<longrightarrow> I r \<and> pq r = []", OF _ assms(1)],
    goal_cases)
  case (1 f s x)
  show ?case
  proof (cases "pq s = []")
    case True
    with 1(2) show ?thesis by auto
  next
    case False
    show ?thesis
    proof (cases "step s")
      case (Inl e)
      with False 1(2) show ?thesis by auto
    next
      case (Inr t)
      with False 1(2) have "f t = Some x" by simp
      from 1(1) [OF this] assms(2) [OF _ False Inr] show ?thesis by blast
    qed
  qed
qed

lemma loop_invariant:
  assumes "dijkstra_loop s = Some (Inr r)" "I s"
    and "\<And>t t'. I t \<Longrightarrow> pq t \<noteq> [] \<Longrightarrow> step t = Inr t' \<Longrightarrow> I t'"
  shows "I r \<and> pq r = []"
  using loop_partial [OF assms(1), of I] assms(2,3) by blast

lemma dijkstra_Inr:
  assumes "dijkstra g src = Some (Inr (d, p, g'))"
  obtains r where "dijkstra_loop (init g src) = Some (Inr r)"
    "d = distances r" "p = previous r" "g' = graph r"
  using assms by (auto simp: dijkstra_def split: option.splits sum.splits)

lemma dijkstra_of_loop:
  "dijkstra_loop (init g src) = Some (Inr r) \<Longrightarrow>
     dijkstra g src = Some (Inr (distances r, previous r, graph r))"
  by (simp add: dijkstra_def)

lemma graph_kept_refl: "graph_kept g g"
  by (simp add: graph_kept_def)

lemma graph_kept_get_neighbors:
  "graph_kept g g1 \<Longrightarrow> graph_kept g (snd (get_neighbors g1 v))"
  unfolding graph_kept_def get_neighbors_def
  by (cases "edges g1 v") auto

lemma graph_kept_nbrs:
  assumes "graph_kept g g'"
  shows "nbrs g' = nbrs g"
proof
  fix v
  show "nbrs g' v = nbrs g v"
  proof (cases "edges g v")
    case None
    with assms have "edges g' v = None \<or> edges g' v = Some []" by (simp add: graph_kept_def)
    with None show ?thesis by (auto simp: nbrs_def)
  next
    case (Some l)
    with assms have "edges g' v = Some l" by (simp add: graph_kept_def)
    with Some show ?thesis by (simp add: nbrs_def)
  qed
qed

lemma relax_graph: "relax u d es s = Inr r \<Longrightarrow> graph r = graph s"
  by (rule relax_frame)

lemma step_graph_kept:
  assumes "graph_kept g (graph s)" "pq s \<noteq> []" "step s = Inr t"
  shows "graph_kept g (graph t)"
proof (cases "snd (Min (set (pq s))) \<in> visited s")
  case True
  from step_stale [OF assms(2) True] assms(1,3) show ?thesis by auto
next
  case False
  from step_visit [OF assms(2) False] assms(3)
  have "graph t = snd (get_neighbors (graph s) (snd (Min (set (pq s)))))"
    by (simp add: relax_graph)
  with assms(1) show ?thesis by (simp add: graph_kept_get_neighbors)
qed

subsection \<open>A source outside the graph\<close>

lemma nbrs_outside:
  assumes "graph_ok g" "v \<notin> vertices g"
  shows "nbrs g v = []"
proof (cases "nbrs g v")
  case Nil
  then show ?thesis .
next
  case (Cons e es)
  obtain x w where "e = (x, w)" by (cases e)
  with Cons have "(x, w) \<in> set (nbrs g v)" by simp
  with assms show ?thesis by (auto simp: graph_ok_def)
qed

lemma loop_outside:
  assumes "nbrs g src = []"
  shows "dijkstra_loop (init g src) =
     Some (Inr ((init g src)\<lparr>pq := [], visited := {src}, graph := snd (get_neighbors g src)\<rparr>))"
proof -
  let ?s = "init g src"
  have q: "pq ?s = [(0, src)]" by (simp add: init_def)
  then have ne: "pq ?s \<noteq> []" by simp
  have m: "Min (set (pq ?s)) = (0, src)" by (simp add: q)
  have nv: "snd (Min (set (pq ?s))) \<notin> visited ?s" by (simp add: init_def)
  have g: "graph ?s = g" "visited ?s = {}" by (simp_all add: init_def)
  have st: "step ?s = Inr (?s\<lparr>pq := [], visited := {src}, graph := snd (get_neighbors g src)\<rparr>)"
    unfolding step_visit [OF ne nv] m by (simp add: g assms q)
  show ?thesis
    by (subst dijkstra_loop.simps, simp add: ne st, subst dijkstra_loop.simps, simp)
qed

subsection \<open>Visited vertices are final\<close>

lemma relax_edge_visited_kept:
  assumes "relax_edge u d e s = Inr r" "v \<in> visited s"
  shows "distances r v = distances s v"
  using assms
  by (cases e) (auto simp: relax_edge_def Let_def split: if_splits option.splits)

lemma relax_visited_kept:
  "relax u d es s = Inr r \<Longrightarrow> v \<in> visited s \<Longrightarrow> distances r v = distances s v"
proof (induction es arbitrary: s)
  case Nil
  then show ?case by simp
next
  case (Cons e es)
  from Cons.prems(1) obtain t where t: "relax_edge u d e s = Inr t" "relax u d es t = Inr r"
    by (rule relax_Cons_Inr)
  have "visited t = visited s" by (rule relax_edge_frame [OF t(1)])
  with Cons.prems(2) have "v \<in> visited t" by simp
  from Cons.IH [OF t(2) this] relax_edge_visited_kept [OF t(1) Cons.prems(2)]
  show ?case by simp
qed

lemma step_nonempty: "step s = Inr t \<Longrightarrow> pq s \<noteq> []"
  by (auto simp: step_def heappop_def)

lemma step_visited:
  assumes "step s = Inr t"
  shows "visited t = visited s \<or>
         (snd (Min (set (pq s))) \<notin> visited s \<and>
          visited t = insert (snd (Min (set (pq s)))) (visited s))"
proof -
  have ne: "pq s \<noteq> []" using assms by (rule step_nonempty)
  show ?thesis
  proof (cases "snd (Min (set (pq s))) \<in> visited s")
    case True
    from step_stale [OF ne True] assms show ?thesis by auto
  next
    case False
    from step_visit [OF ne False] assms
    have "relax (snd (Min (set (pq s)))) (fst (Min (set (pq s))))
           (nbrs (graph s) (snd (Min (set (pq s)))))
           (s\<lparr>pq := remove1 (Min (set (pq s))) (pq s),
              visited := insert (snd (Min (set (pq s)))) (visited s),
              graph := snd (get_neighbors (graph s) (snd (Min (set (pq s)))))\<rparr>) = Inr t"
      by simp
    from relax_frame(1) [OF this] False show ?thesis by simp
  qed
qed

lemma step_visited_kept:
  assumes "step s = Inr t" "v \<in> visited s"
  shows "v \<in> visited t \<and> distances t v = distances s v"
proof -
  have ne: "pq s \<noteq> []" using assms(1) by (rule step_nonempty)
  show ?thesis
  proof (cases "snd (Min (set (pq s))) \<in> visited s")
    case True
    from step_stale [OF ne True] assms show ?thesis by auto
  next
    case False
    define s1 where "s1 = s\<lparr>pq := remove1 (Min (set (pq s))) (pq s),
              visited := insert (snd (Min (set (pq s)))) (visited s),
              graph := snd (get_neighbors (graph s) (snd (Min (set (pq s)))))\<rparr>"
    from step_visit [OF ne False] assms(1)
    have r: "relax (snd (Min (set (pq s)))) (fst (Min (set (pq s))))
           (nbrs (graph s) (snd (Min (set (pq s))))) s1 = Inr t"
      by (simp add: s1_def)
    have v1: "v \<in> visited s1" using assms(2) by (simp add: s1_def)
    have "distances t v = distances s1 v" using r v1 by (rule relax_visited_kept)
    moreover have "visited t = visited s1" using r by (rule relax_frame)
    ultimately show ?thesis using v1 by (simp add: s1_def)
  qed
qed

lemma run_visited_kept:
  "run m s = Inr s' \<Longrightarrow> v \<in> visited s \<Longrightarrow> v \<in> visited s' \<and> distances s' v = distances s v"
proof (induction m arbitrary: s)
  case 0
  then show ?case by simp
next
  case (Suc m)
  show ?case
  proof (cases "pq s = []")
    case True
    with Suc.prems show ?thesis by simp
  next
    case False
    with Suc.prems(1) obtain t where t: "step s = Inr t" "run m t = Inr s'"
      by (cases "step s") simp_all
    from step_visited_kept [OF t(1) Suc.prems(2)]
    have a: "v \<in> visited t" "distances t v = distances s v" by simp_all
    from Suc.IH [OF t(2) a(1)] a(2) show ?thesis by simp
  qed
qed

subsection \<open>The result does not depend on the keys of the adjacency dictionary\<close>

lemma relax_edge_graph:
  "relax_edge u d e (s\<lparr>graph := g2\<rparr>) = map_sum id (\<lambda>r. r\<lparr>graph := g2\<rparr>) (relax_edge u d e s)"
  by (cases e) (simp add: relax_edge_def Let_def split: option.splits)

lemma relax_graph_indep:
  "relax u d es (s\<lparr>graph := g2\<rparr>) = map_sum id (\<lambda>r. r\<lparr>graph := g2\<rparr>) (relax u d es s)"
proof (induction es arbitrary: s)
  case Nil
  show ?case by simp
next
  case (Cons e es)
  show ?case
  proof (cases "relax_edge u d e s")
    case (Inl err)
    then show ?thesis by (simp add: relax_edge_graph)
  next
    case (Inr t)
    then show ?thesis by (simp add: relax_edge_graph Cons.IH)
  qed
qed

lemma step_graph_indep:
  assumes "nbrs g2 = nbrs (graph s)"
  shows "\<exists>g3. step (s\<lparr>graph := g2\<rparr>) = map_sum id (\<lambda>r. r\<lparr>graph := g3\<rparr>) (step s) \<and>
              (\<forall>t. step s = Inr t \<longrightarrow> nbrs g3 = nbrs (graph t))"
proof (cases "pq s = []")
  case True
  then show ?thesis by (simp add: step_def heappop_def)
next
  case ne: False
  let ?m = "Min (set (pq s))"
  have ne2: "pq (s\<lparr>graph := g2\<rparr>) \<noteq> []" using ne by simp
  show ?thesis
  proof (cases "snd ?m \<in> visited s")
    case True
    then have "snd (Min (set (pq (s\<lparr>graph := g2\<rparr>)))) \<in> visited (s\<lparr>graph := g2\<rparr>)" by simp
    from step_stale [OF ne2 this] step_stale [OF ne True] assms
    have "step (s\<lparr>graph := g2\<rparr>) = map_sum id (\<lambda>r. r\<lparr>graph := g2\<rparr>) (step s) \<and>
              (\<forall>t. step s = Inr t \<longrightarrow> nbrs g2 = nbrs (graph t))"
      by auto
    then show ?thesis by blast
  next
    case False
    define s1 where "s1 = s\<lparr>pq := remove1 ?m (pq s), visited := insert (snd ?m) (visited s),
              graph := snd (get_neighbors (graph s) (snd ?m))\<rparr>"
    define g3 where "g3 = snd (get_neighbors g2 (snd ?m))"
    have a: "step s = relax (snd ?m) (fst ?m) (nbrs (graph s) (snd ?m)) s1"
      unfolding s1_def using ne False by (rule step_visit)
    from False have "snd (Min (set (pq (s\<lparr>graph := g2\<rparr>)))) \<notin> visited (s\<lparr>graph := g2\<rparr>)"
      by simp
    from step_visit [OF ne2 this]
    have "step (s\<lparr>graph := g2\<rparr>) = relax (snd ?m) (fst ?m) (nbrs (graph s) (snd ?m)) (s1\<lparr>graph := g3\<rparr>)"
      by (simp add: s1_def g3_def assms)
    then have b: "step (s\<lparr>graph := g2\<rparr>) = map_sum id (\<lambda>r. r\<lparr>graph := g3\<rparr>) (step s)"
      by (simp add: relax_graph_indep a)
    have "nbrs g3 = nbrs (graph t)" if "step s = Inr t" for t
    proof -
      from that a have "graph t = graph s1" by (simp add: relax_frame(2))
      then show ?thesis by (simp add: s1_def g3_def get_neighbors_nbrs assms)
    qed
    with b show ?thesis by blast
  qed
qed

lemma loop_graph_indep:
  assumes "dijkstra_loop s = Some x"
  shows "\<forall>g2. nbrs g2 = nbrs (graph s) \<longrightarrow>
           (\<exists>g3. dijkstra_loop (s\<lparr>graph := g2\<rparr>) = Some (map_sum id (\<lambda>r. r\<lparr>graph := g3\<rparr>) x))"
proof (rule dijkstra_loop.raw_induct
    [where P = "\<lambda>s x. \<forall>g2. nbrs g2 = nbrs (graph s) \<longrightarrow>
           (\<exists>g3. dijkstra_loop (s\<lparr>graph := g2\<rparr>) = Some (map_sum id (\<lambda>r. r\<lparr>graph := g3\<rparr>) x))",
      OF _ assms], goal_cases)
  case (1 f s x)
  show ?case
  proof (intro allI impI)
    fix g2 assume g2: "nbrs g2 = nbrs (graph s)"
    from step_graph_indep [OF g2] obtain g3 where
      g3: "step (s\<lparr>graph := g2\<rparr>) = map_sum id (\<lambda>r. r\<lparr>graph := g3\<rparr>) (step s)"
          "\<And>t. step s = Inr t \<Longrightarrow> nbrs g3 = nbrs (graph t)"
      by blast
    show "\<exists>g3. dijkstra_loop (s\<lparr>graph := g2\<rparr>) = Some (map_sum id (\<lambda>r. r\<lparr>graph := g3\<rparr>) x)"
    proof (cases "pq s = []")
      case True
      with 1(2) have "x = Inr s" by simp
      moreover from True have "dijkstra_loop (s\<lparr>graph := g2\<rparr>) = Some (Inr (s\<lparr>graph := g2\<rparr>))"
        by (subst dijkstra_loop.simps) simp
      ultimately show ?thesis by auto
    next
      case False
      show ?thesis
      proof (cases "step s")
        case (Inl e)
        with False 1(2) have "x = Inl e" by simp
        moreover from False Inl g3(1) have "dijkstra_loop (s\<lparr>graph := g2\<rparr>) = Some (Inl e)"
          by (subst dijkstra_loop.simps) simp
        ultimately show ?thesis by simp
      next
        case (Inr t)
        with False 1(2) have "f t = Some x" by simp
        from 1(1) [OF this] g3(2) [OF Inr] obtain g4 where
          "dijkstra_loop (t\<lparr>graph := g3\<rparr>) = Some (map_sum id (\<lambda>r. r\<lparr>graph := g4\<rparr>) x)"
          by blast
        moreover from False Inr g3(1)
        have "dijkstra_loop (s\<lparr>graph := g2\<rparr>) = dijkstra_loop (t\<lparr>graph := g3\<rparr>)"
          by (subst dijkstra_loop.simps) simp
        ultimately show ?thesis by auto
      qed
    qed
  qed
qed

lemma graph_kept_after:
  assumes "dijkstra_loop (init g src) = Some (Inr r)"
  shows "graph_kept g (graph r)"
proof -
  have "graph_kept g (graph (init g src))" by (simp add: init_def graph_kept_refl)
  with assms have "graph_kept g (graph r) \<and> pq r = []"
    by (rule loop_invariant) (rule step_graph_kept)
  then show ?thesis ..
qed

subsection \<open>The invariant of the main loop\<close>

lemma lt_dist_not: "\<not> lt_dist n old \<Longrightarrow> \<exists>m. old = Dist m \<and> m \<le> n"
  by (cases old) simp_all

text \<open>The two outcomes of a pass of the inner loop that does not raise.\<close>

lemma relax_edge_cases:
  assumes "relax_edge u d (v, w) s = Inr t"
  obtains (same) "t = s" "v \<in> visited s \<or> (\<exists>m. distances s v = Some (Dist m) \<and> m \<le> d + w)"
  | (update) old where "v \<notin> visited s" "distances s v = Some old" "lt_dist (d + w) old"
      "t = s\<lparr>distances := (distances s)(v \<mapsto> Dist (d + w)),
             previous := (previous s)(v \<mapsto> Some u),
             pq := (d + w, v) # pq s\<rparr>"
proof (cases "v \<in> visited s")
  case True
  with assms have "t = s" by (simp add: relax_edge_def)
  with True same show ?thesis by blast
next
  case False
  with assms obtain old where old: "distances s v = Some old"
    by (cases "distances s v") (simp_all add: relax_edge_def Let_def)
  show ?thesis
  proof (cases "lt_dist (d + w) old")
    case True
    with assms False old
    have "t = s\<lparr>distances := (distances s)(v \<mapsto> Dist (d + w)),
             previous := (previous s)(v \<mapsto> Some u),
             pq := (d + w, v) # pq s\<rparr>"
      by (simp add: relax_edge_def Let_def heappush_def)
    with False old True update show ?thesis by blast
  next
    case nlt: False
    with assms False old have "t = s" by (simp add: relax_edge_def Let_def)
    moreover from lt_dist_not [OF nlt] old have "\<exists>m. distances s v = Some (Dist m) \<and> m \<le> d + w"
      by simp
    ultimately show ?thesis using same by blast
  qed
qed

lemma found_tail_same:
  assumes "found g s u ((v, w) # rest)"
    and "v \<in> visited s \<or> (\<exists>m. distances s v = Some (Dist m) \<and> m \<le> d + w)"
  shows "found g s u rest"
  using assms unfolding found_def by (metis set_ConsD prod.inject)

lemma midA_relax_edge:
  assumes m: "midA g src u d (e # rest) s" and r: "relax_edge u d e s = Inr t"
  shows "midA g src u d rest t"
proof -
  obtain v w where e: "e = (v, w)" by (cases e)
  from m have edge: "(v, w) \<in> set (nbrs g u)" and rest: "set rest \<subseteq> set (nbrs g u)"
    by (simp_all add: midA_def e)
  from m have wu: "walk g src u d" and uvis: "u \<in> visited s" by (simp_all add: midA_def)
  from wu edge have wv: "walk g src v (d + w)" by (rule walk_edge)
  from m have sf: "source_first src s" by (simp add: midA_def)
  with uvis have srcvis: "src \<in> visited s" by (auto simp: source_first_def)
  from r [unfolded e] show ?thesis
  proof (cases rule: relax_edge_cases)
    case same
    from m have "found g s u ((v, w) # rest)" by (simp add: midA_def e)
    then have "found g s u rest" using same(2) by (rule found_tail_same)
    with m rest show ?thesis by (simp add: midA_def same(1))
  next
    case (update old)
    have vis: "visited t = visited s" by (simp add: update(4))
    have dt: "distances t x = (if x = v then Some (Dist (d + w)) else distances s x)" for x
      by (simp add: update(4))
    have pt: "previous t x = (if x = v then Some (Some u) else previous s x)" for x
      by (simp add: update(4))
    have qt: "set (pq t) = insert (d + w, v) (set (pq s))" by (simp add: update(4))
    have vsrc: "v \<noteq> src" using update(1) srcvis by auto
    from m have so: "sound g src s" by (simp add: midA_def)
    have "sound g src t"
      unfolding sound_def vis dt qt using so wv by (auto simp: sound_def)
    moreover have "unreached_none t"
      using m unfolding unreached_none_def dt pt by (auto simp: midA_def unreached_none_def)
    moreover have "source_first src t"
      using sf srcvis vsrc unfolding source_first_def vis pt by simp
    moreover have "queued t"
      using m unfolding queued_def vis dt qt by (auto simp: midA_def queued_def)
    moreover have "\<forall>u' \<in> visited t. u' \<noteq> u \<longrightarrow> found g t u' []"
      using m unfolding found_def vis dt by (auto simp: midA_def found_def)
    moreover have "found g t u rest"
    proof -
      from m have "found g s u ((v, w) # rest)" by (simp add: midA_def e)
      then show ?thesis unfolding found_def vis dt by (metis set_ConsD prod.inject)
    qed
    ultimately show ?thesis using uvis wu rest by (simp add: midA_def vis)
  qed
qed

lemma midA_relax:
  assumes "midA g src u d es s" "relax u d es s = Inr t"
  shows "midA g src u d [] t"
  using assms by (rule relax_invariant) (rule midA_relax_edge)

lemma in_remove1: "a \<noteq> b \<Longrightarrow> a \<in> set xs \<Longrightarrow> a \<in> set (remove1 b xs)"
  by simp

lemma midA_start:
  assumes i: "invA g src s" and ne: "pq s \<noteq> []" and m: "Min (set (pq s)) = (d, u)"
    and nv: "u \<notin> visited s"
  shows "midA g src u d (nbrs g u)
           (s\<lparr>pq := remove1 (d, u) (pq s), visited := insert u (visited s), graph := g'\<rparr>)"
proof -
  define s1 where "s1 = s\<lparr>pq := remove1 (d, u) (pq s), visited := insert u (visited s), graph := g'\<rparr>"
  have m_in: "(d, u) \<in> set (pq s)" using Min_in_pq [OF ne] m by simp
  have q_sub: "set (remove1 (d, u) (pq s)) \<subseteq> set (pq s)" by (rule set_remove1_subset)
  from i have so: "sound g src s" and un: "unreached_none s" and sf: "source_first src s"
    and qu: "queued s" and fo: "\<forall>u \<in> visited s. found g s u []"
    by (simp_all add: invA_def)
  have wu: "walk g src u d" using so m_in by (simp add: sound_def)
  have "sound g src s1"
    unfolding sound_def
  proof (intro conjI allI impI ballI)
    fix v k assume "distances s1 v = Some (Dist k)"
    then show "walk g src v k" using so by (simp add: sound_def s1_def)
  next
    fix k v assume "(k, v) \<in> set (pq s1)"
    then have "(k, v) \<in> set (pq s)" using q_sub by (auto simp: s1_def)
    then show "walk g src v k" using so by (simp add: sound_def)
  next
    fix v assume "v \<in> visited s1"
    then have "v = u \<or> v \<in> visited s" by (simp add: s1_def)
    then show "reachable g src v" using so wu by (auto simp: sound_def reachable_def)
  qed
  moreover have "unreached_none s1" using un by (simp add: unreached_none_def s1_def)
  moreover have "source_first src s1"
  proof -
    have "src \<in> visited s \<or> u = src" using sf m ne by (auto simp: source_first_def)
    then show ?thesis using sf by (auto simp: source_first_def s1_def)
  qed
  moreover have "queued s1"
    unfolding queued_def
  proof (intro allI impI)
    fix v k assume "v \<notin> visited s1" "distances s1 v = Some (Dist k)"
    then have a: "v \<notin> visited s" "v \<noteq> u" "distances s v = Some (Dist k)"
      by (simp_all add: s1_def)
    with qu have "(k, v) \<in> set (pq s)" by (simp add: queued_def)
    with a(2) show "(k, v) \<in> set (pq s1)" by (simp add: s1_def in_remove1)
  qed
  moreover have "\<forall>u' \<in> visited s1. u' \<noteq> u \<longrightarrow> found g s1 u' []"
    using fo by (auto simp: found_def s1_def)
  moreover have "found g s1 u (nbrs g u)" by (simp add: found_def)
  ultimately have "midA g src u d (nbrs g u) s1" using wu by (simp add: midA_def s1_def)
  then show ?thesis by (simp add: s1_def)
qed

lemma invA_step:
  assumes i: "invA g src s" and nb: "nbrs (graph s) = nbrs g"
    and ne: "pq s \<noteq> []" and st: "step s = Inr t"
  shows "invA g src t"
proof -
  obtain d u where m: "Min (set (pq s)) = (d, u)" by (cases "Min (set (pq s))")
  define q where "q = remove1 (d, u) (pq s)"
  have q_sub: "set q \<subseteq> set (pq s)" unfolding q_def by (rule set_remove1_subset)
  from i have so: "sound g src s" and un: "unreached_none s" and sf: "source_first src s"
    and qu: "queued s" and fo: "\<forall>u \<in> visited s. found g s u []"
    by (simp_all add: invA_def)
  show ?thesis
  proof (cases "u \<in> visited s")
    case True
    with step_stale [OF ne] st m have t: "t = s\<lparr>pq := q\<rparr>" by (simp add: q_def)
    have "sound g src t" using so q_sub by (auto simp: sound_def t)
    moreover have "unreached_none t" using un by (simp add: unreached_none_def t)
    moreover have "source_first src t" using sf True by (auto simp: source_first_def t)
    moreover have "queued t"
      unfolding queued_def
    proof (intro allI impI)
      fix v k assume "v \<notin> visited t" "distances t v = Some (Dist k)"
      then have a: "v \<notin> visited s" "distances s v = Some (Dist k)" by (simp_all add: t)
      with qu have "(k, v) \<in> set (pq s)" by (simp add: queued_def)
      moreover from a(1) True have "v \<noteq> u" by auto
      ultimately show "(k, v) \<in> set (pq t)" by (simp add: t q_def in_remove1)
    qed
    moreover have "\<forall>u \<in> visited t. found g t u []" using fo by (simp add: found_def t)
    ultimately show ?thesis by (simp add: invA_def)
  next
    case False
    define g' where "g' = snd (get_neighbors (graph s) u)"
    define s1 where "s1 = s\<lparr>pq := q, visited := insert u (visited s), graph := g'\<rparr>"
    from step_visit [OF ne] False st m
    have r: "relax u d (nbrs g u) s1 = Inr t" by (simp add: q_def s1_def g'_def nb)
    have "midA g src u d (nbrs g u) s1"
      unfolding s1_def q_def using i ne m False by (rule midA_start)
    from midA_relax [OF this r] have mt: "midA g src u d [] t" .
    then have "\<forall>u' \<in> visited t. found g t u' []" by (auto simp: midA_def)
    with mt show ?thesis by (simp add: invA_def midA_def)
  qed
qed

lemma invA_init: "src \<in> vertices g \<Longrightarrow> invA g src (init g src)"
  unfolding invA_def sound_def unreached_none_def source_first_def queued_def
  by (auto simp: init_def walk_here split: if_splits)

subsection \<open>The total length of the adjacency lists\<close>

lemma edge_calls_append: "edge_calls (xs @ ys) = edge_calls xs + edge_calls ys"
  by (induction xs rule: edge_calls.induct) simp_all

lemma sum_outside:
  assumes "graph_ok g" "finite A" "vertices g \<subseteq> A"
  shows "(\<Sum>v \<in> A. length (nbrs g v)) = (\<Sum>v \<in> vertices g. length (nbrs g v))"
proof (rule sum.mono_neutral_right)
  show "finite A" by fact
  show "vertices g \<subseteq> A" by fact
  show "\<forall>i \<in> A - vertices g. length (nbrs g i) = 0"
    using assms(1) by (simp add: nbrs_outside)
qed

lemma degree_sum_apply_op:
  assumes ok: "graph_ok g"
  shows "(\<Sum>v \<in> vertices (apply_op g x). length (nbrs (apply_op g x) v)) =
         (\<Sum>v \<in> vertices g. length (nbrs g v)) + 2 * edge_calls [x]"
proof (cases x)
  case (AddVertex a)
  have "finite (insert a (vertices g))" using ok by (simp add: graph_ok_def)
  from sum_outside [OF ok this] show ?thesis
    by (simp add: AddVertex nbrs_add_vertex vertices_add_vertex subset_insertI)
next
  case (AddEdge a b c)
  let ?A = "insert b (insert a (vertices g))"
  have fin: "finite ?A" using ok by (simp add: graph_ok_def)
  have len: "length (nbrs (add_edge g a b c) v) =
      length (nbrs g v) + ((if v = a then 1 else 0) + (if v = b then 1 else 0))" for v
    by (simp add: nbrs_add_edge)
  have "(\<Sum>v \<in> ?A. length (nbrs (add_edge g a b c) v)) =
        (\<Sum>v \<in> ?A. length (nbrs g v)) +
        ((\<Sum>v \<in> ?A. if v = a then 1 else 0) + (\<Sum>v \<in> ?A. if v = b then 1 else 0))"
    unfolding len by (simp only: sum.distrib)
  moreover have "(\<Sum>v \<in> ?A. if v = a then 1 else 0) = (1::nat)"
    using fin by (simp only: sum.delta) simp
  moreover have "(\<Sum>v \<in> ?A. if v = b then 1 else 0) = (1::nat)"
    using fin by (simp only: sum.delta) simp
  moreover have "(\<Sum>v \<in> ?A. length (nbrs g v)) = (\<Sum>v \<in> vertices g. length (nbrs g v))"
    using ok fin by (rule sum_outside) auto
  ultimately show ?thesis by (simp add: AddEdge vertices_add_edge)
qed

lemma degree_sum:
  "(\<Sum>v \<in> vertices (build ops). length (nbrs (build ops) v)) = 2 * edge_calls ops"
proof (induction ops rule: rev_induct)
  case Nil
  show ?case by (simp add: build_Nil Graph_def)
next
  case (snoc x xs)
  from degree_sum_apply_op [OF build_ok, of xs x] snoc
  show ?case by (simp add: build_snoc edge_calls_append)
qed

subsection \<open>The run from the initial state\<close>

lemma run_ends:
  assumes ok: "graph_ok g" and src: "src \<in> vertices g"
    and n: "Suc (\<Sum>v \<in> vertices g. length (nbrs g v)) \<le> n"
  shows "\<exists>r. run n (init g src) = Inr r \<and> pq r = [] \<and>
           dijkstra_loop (init g src) = Some (Inr r) \<and> basic g r \<and> invA g src r"
proof -
  have b0: "basic g (init g src)" using src by (rule basic_init)
  have "mu (init g src) \<le> n" using n by (simp add: mu_init)
  from run_total [OF ok b0 this] obtain r where r: "run n (init g src) = Inr r" "pq r = []"
    by blast
  have "basic g (init g src) \<and> invA g src (init g src)" using b0 src by (simp add: invA_init)
  then have "basic g r \<and> invA g src r" using r(1)
  proof (rule run_invariant)
    fix t t' assume a: "basic g t \<and> invA g src t" "pq t \<noteq> []" "step t = Inr t'"
    from a(1) have nb: "nbrs (graph t) = nbrs g" by (simp add: basic_def)
    from step_basic [OF ok _ a(2)] a(1,3) have "basic g t'" by auto
    moreover from a(1) have "invA g src t" ..
    then have "invA g src t'" using nb a(2,3) by (rule invA_step)
    ultimately show "basic g t' \<and> invA g src t'" ..
  qed
  moreover have "dijkstra_loop (init g src) = Some (Inr r)" using r by (rule run_loop)
  ultimately show ?thesis using r by blast
qed

lemma final_source_visited:
  assumes "invA g src r" "pq r = []"
  shows "src \<in> visited r"
  using assms by (auto simp: invA_def source_first_def)

lemma final_closed:
  assumes i: "invA g src r" and e: "pq r = []"
  shows "walk g src v k \<Longrightarrow> v \<in> visited r"
proof (induction rule: walk.induct)
  case walk_here
  from i e show ?case by (rule final_source_visited)
next
  case (walk_edge u d v w)
  from i walk_edge.IH have "found g r u []" by (simp add: invA_def)
  with walk_edge.hyps(2) have "v \<in> visited r \<or> (\<exists>k. distances r v = Some (Dist k))"
    by (auto simp: found_def)
  moreover have "v \<in> visited r" if "distances r v = Some (Dist k)" for k
  proof (rule ccontr)
    assume "v \<notin> visited r"
    with i that have "(k, v) \<in> set (pq r)" by (simp add: invA_def queued_def)
    with e show False by simp
  qed
  ultimately show ?case by blast
qed

lemma final_visited:
  assumes "invA g src r" "pq r = []"
  shows "visited r = {v. reachable g src v}"
proof (intro set_eqI iffI)
  fix v assume "v \<in> visited r"
  with assms(1) show "v \<in> {v. reachable g src v}" by (simp add: invA_def sound_def)
next
  fix v assume "v \<in> {v. reachable g src v}"
  then obtain k where "walk g src v k" by (auto simp: reachable_def)
  with assms show "v \<in> visited r" by (rule final_closed)
qed

lemma final_unreachable:
  assumes i: "invA g src r" and b: "basic g r" and v: "v \<in> vertices g"
    and u: "\<not> reachable g src v"
  shows "distances r v = Some PosInf \<and> previous r v = Some None"
proof -
  from b v have "v \<in> dom (distances r)" by (simp add: basic_def)
  then obtain x where x: "distances r v = Some x" by blast
  have "x = PosInf"
  proof (cases x)
    case (Dist k)
    with x i have "walk g src v k" by (simp add: invA_def sound_def)
    with u show ?thesis by (simp add: reachable_def)
  qed
  with x i show ?thesis by (simp add: invA_def unreached_none_def)
qed

subsection \<open>The vertices marked visited\<close>

lemma step_visited_eq:
  assumes "step s = Inr t"
  shows "visited t = (if snd (Min (set (pq s))) \<in> visited s then visited s
                      else insert (snd (Min (set (pq s)))) (visited s))"
proof -
  have ne: "pq s \<noteq> []" using assms by (rule step_nonempty)
  show ?thesis
  proof (cases "snd (Min (set (pq s))) \<in> visited s")
    case True
    from step_stale [OF ne True] assms show ?thesis using True by auto
  next
    case False
    from step_visit [OF ne False] assms
    have "relax (snd (Min (set (pq s)))) (fst (Min (set (pq s))))
           (nbrs (graph s) (snd (Min (set (pq s)))))
           (s\<lparr>pq := remove1 (Min (set (pq s))) (pq s),
              visited := insert (snd (Min (set (pq s)))) (visited s),
              graph := snd (get_neighbors (graph s) (snd (Min (set (pq s)))))\<rparr>) = Inr t"
      by simp
    from relax_frame(1) [OF this] False show ?thesis by simp
  qed
qed

lemma run_visited_mono: "run n s = Inr r \<Longrightarrow> visited s \<subseteq> visited r"
  using run_visited_kept by blast

lemma marked_run:
  "run n s = Inr r \<Longrightarrow>
     set (marked n s) = visited r - visited s \<and> distinct (marked n s)"
proof (induction n arbitrary: s)
  case 0
  then show ?case by simp
next
  case (Suc n)
  show ?case
  proof (cases "pq s = []")
    case True
    with Suc.prems show ?thesis by simp
  next
    case False
    with Suc.prems obtain t where t: "step s = Inr t" "run n t = Inr r"
      by (cases "step s") simp_all
    from Suc.IH [OF t(2)] have ih: "set (marked n t) = visited r - visited t"
      "distinct (marked n t)" by simp_all
    have sub: "visited t \<subseteq> visited r" using t(2) by (rule run_visited_mono)
    note vt = step_visited_eq [OF t(1)]
    show ?thesis
    proof (cases "snd (Min (set (pq s))) \<in> visited s")
      case True
      with vt ih False t(1) show ?thesis by simp
    next
      case nv: False
      with vt have vt': "visited t = insert (snd (Min (set (pq s)))) (visited s)" by simp
      have m: "marked (Suc n) s = snd (Min (set (pq s))) # marked n t"
        using False t(1) nv by simp
      have "snd (Min (set (pq s))) \<notin> set (marked n t)" using ih(1) vt' by simp
      moreover have "insert (snd (Min (set (pq s)))) (visited r - visited t) =
          visited r - visited s"
        using vt' sub nv by auto
      ultimately show ?thesis unfolding m using ih by simp
    qed
  qed
qed

subsection \<open>Walking back from a vertex without predecessor\<close>

lemma walk_back_end: "prev v = Some None \<Longrightarrow> walk_back prev (Some v) [] = Some (Inr [v])"
  by (subst walk_back.simps, simp, subst walk_back.simps, simp)

lemma reconstruct_path_root:
  "prev v = Some None \<Longrightarrow>
     reconstruct_path prev start v = Some (Inr (if v \<noteq> start then None else Some [v]))"
  by (simp add: reconstruct_path_def walk_back_end)

lemma dijkstra_ends:
  assumes "src \<in> vertices (build ops)"
  obtains r where "dijkstra (build ops) src = Some (Inr (distances r, previous r, graph r))"
    "pq r = []" "basic (build ops) r" "invA (build ops) src r"
proof -
  from run_ends [OF build_ok assms order_refl] obtain r where
    "dijkstra_loop (init (build ops) src) = Some (Inr r)" "pq r = []"
    "basic (build ops) r" "invA (build ops) src r"
    by blast
  with that dijkstra_of_loop show ?thesis by blast
qed

subsection \<open>Shortest distances, for weights that are not negative\<close>

lemma nonneg_apply_op: "nonneg g \<Longrightarrow> nonneg_op x \<Longrightarrow> nonneg (apply_op g x)"
  by (cases x) (auto simp: nonneg_def nbrs_add_vertex nbrs_add_edge split: if_splits)

lemma build_nonneg: "\<forall>x \<in> set ops. nonneg_op x \<Longrightarrow> nonneg (build ops)"
proof (induction ops rule: rev_induct)
  case Nil
  show ?case by (simp add: nonneg_def build_Nil nbrs_Graph)
next
  case (snoc x xs)
  then show ?case by (simp add: build_snoc nonneg_apply_op)
qed

lemma walk_nonneg:
  assumes "nonneg g"
  shows "walk g src v k \<Longrightarrow> 0 \<le> k"
proof (induction rule: walk.induct)
  case walk_here
  show ?case by simp
next
  case (walk_edge u d v w)
  from assms walk_edge.hyps(2) have "0 \<le> w" by (auto simp: nonneg_def)
  with walk_edge.IH show ?case by simp
qed

text \<open>Every path from the source passes a settled vertex or a queue entry no heavier.\<close>

lemma frontier:
  assumes a: "invA g src s" and b: "invB g src s" and nn: "nonneg g"
  shows "walk g src v k' \<Longrightarrow>
     (v \<in> visited s \<and> (\<exists>kv. distances s v = Some (Dist kv) \<and> kv \<le> k')) \<or>
     (\<exists>k x. (k, x) \<in> set (pq s) \<and> k \<le> k')"
proof (induction rule: walk.induct)
  case walk_here
  show ?case
  proof (cases "src \<in> visited s")
    case True
    with b obtain k where "distances s src = Some (Dist k)" "\<forall>k'. walk g src src k' \<longrightarrow> k \<le> k'"
      by (auto simp: invB_def settled_def)
    with walk.walk_here [of g src] True show ?thesis by blast
  next
    case False
    with a have "pq s = [(0, src)]" by (auto simp: invA_def source_first_def)
    then show ?thesis by auto
  qed
next
  case (walk_edge u d v w)
  have w0: "0 \<le> w" using nn walk_edge.hyps(2) by (auto simp: nonneg_def)
  from walk_edge.IH show ?case
  proof
    assume "u \<in> visited s \<and> (\<exists>kv. distances s u = Some (Dist kv) \<and> kv \<le> d)"
    then obtain ku where u: "u \<in> visited s" "distances s u = Some (Dist ku)" "ku \<le> d" by blast
    from b u(1) have "relaxed g s u []" by (simp add: invB_def)
    with walk_edge.hyps(2) u(2) obtain kv where
      kv: "distances s v = Some (Dist kv)" "kv \<le> ku + w"
      by (auto simp: relaxed_def)
    show ?thesis
    proof (cases "v \<in> visited s")
      case True
      with kv u(3) show ?thesis by auto
    next
      case False
      with a kv(1) have "(kv, v) \<in> set (pq s)" by (simp add: invA_def queued_def)
      moreover have "kv \<le> d + w" using kv(2) u(3) by simp
      ultimately show ?thesis by blast
    qed
  next
    assume "\<exists>k x. (k, x) \<in> set (pq s) \<and> k \<le> d"
    then obtain k x where "(k, x) \<in> set (pq s)" "k \<le> d" by blast
    with w0 have "(k, x) \<in> set (pq s) \<and> k \<le> d + w" by simp
    then show ?thesis by blast
  qed
qed

lemma fst_le: "(x :: int \<times> 'v::linorder) \<le> y \<Longrightarrow> fst x \<le> fst y"
  by (auto simp: less_eq_prod_def)

text \<open>The entry popped for an unvisited vertex carries its distance, which is least.\<close>

lemma popped_least:
  assumes a: "invA g src s" and b: "invB g src s" and nn: "nonneg g"
    and ne: "pq s \<noteq> []" and m: "Min (set (pq s)) = (d, u)" and nv: "u \<notin> visited s"
  shows "distances s u = Some (Dist d) \<and> (\<forall>k'. walk g src u k' \<longrightarrow> d \<le> k')"
proof -
  have m_in: "(d, u) \<in> set (pq s)" using Min_in_pq [OF ne] m by simp
  have least: "d \<le> k'" if "walk g src u k'" for k'
  proof -
    from frontier [OF a b nn that] nv obtain k x where kx: "(k, x) \<in> set (pq s)" "k \<le> k'"
      by blast
    from Min_le_pq [OF kx(1)] m have "(d, u) \<le> (k, x)" by simp
    from fst_le [OF this] kx(2) show ?thesis by simp
  qed
  from b have "bounded s" by (simp add: invB_def)
  with m_in have "\<exists>k. distances s u = Some (Dist k) \<and> k \<le> d" unfolding bounded_def by blast
  then obtain k where k: "distances s u = Some (Dist k)" "k \<le> d" by blast
  from a k(1) have "walk g src u k" by (simp add: invA_def sound_def)
  from least [OF this] k show ?thesis using least by auto
qed

lemma relaxed_mono:
  assumes "relaxed g s u rest" "distances t u = distances s u"
    and "\<And>x kx. distances s x = Some (Dist kx) \<Longrightarrow> \<exists>kx'. distances t x = Some (Dist kx') \<and> kx' \<le> kx"
  shows "relaxed g t u rest"
  unfolding relaxed_def
proof (intro allI impI)
  fix v w assume "(v, w) \<in> set (nbrs g u)"
  with assms(1) have "(v, w) \<in> set rest \<or>
      (\<exists>ku kv. distances s u = Some (Dist ku) \<and> distances s v = Some (Dist kv) \<and> kv \<le> ku + w)"
    by (simp add: relaxed_def)
  then show "(v, w) \<in> set rest \<or>
      (\<exists>ku kv. distances t u = Some (Dist ku) \<and> distances t v = Some (Dist kv) \<and> kv \<le> ku + w)"
  proof
    assume "(v, w) \<in> set rest"
    then show ?thesis ..
  next
    assume "\<exists>ku kv. distances s u = Some (Dist ku) \<and> distances s v = Some (Dist kv) \<and> kv \<le> ku + w"
    then obtain ku kv where k: "distances s u = Some (Dist ku)" "distances s v = Some (Dist kv)"
      "kv \<le> ku + w" by blast
    from assms(3) [OF k(2)] obtain kv' where "distances t v = Some (Dist kv')" "kv' \<le> kv" by blast
    with k assms(2) have "distances t u = Some (Dist ku) \<and> distances t v = Some (Dist kv') \<and> kv' \<le> ku + w"
      by simp
    then show ?thesis by blast
  qed
qed

lemma relaxed_tail:
  assumes "relaxed g s u ((v, w) # rest)"
    and "\<exists>kv. distances s u = Some (Dist d) \<and> distances s v = Some (Dist kv) \<and> kv \<le> d + w"
  shows "relaxed g s u rest"
  unfolding relaxed_def
proof (intro allI impI)
  fix x w' assume "(x, w') \<in> set (nbrs g u)"
  with assms(1) have "(x, w') \<in> set ((v, w) # rest) \<or>
      (\<exists>ku kv. distances s u = Some (Dist ku) \<and> distances s x = Some (Dist kv) \<and> kv \<le> ku + w')"
    by (simp add: relaxed_def)
  moreover have "\<exists>ku kv. distances s u = Some (Dist ku) \<and> distances s x = Some (Dist kv) \<and> kv \<le> ku + w'"
    if "(x, w') = (v, w)"
    using that assms(2) by auto
  ultimately show "(x, w') \<in> set rest \<or>
      (\<exists>ku kv. distances s u = Some (Dist ku) \<and> distances s x = Some (Dist kv) \<and> kv \<le> ku + w')"
    by auto
qed

lemma midB_relax_edge:
  assumes ma: "midA g src u d (e # rest) s" and mb: "midB g src u d (e # rest) s"
    and r: "relax_edge u d e s = Inr t"
  shows "midB g src u d rest t"
proof -
  obtain v w where e: "e = (v, w)" by (cases e)
  from ma have edge: "(v, w) \<in> set (nbrs g u)" and wu: "walk g src u d"
    and uvis: "u \<in> visited s"
    by (simp_all add: midA_def e)
  from wu edge have wv: "walk g src v (d + w)" by (rule walk_edge)
  from mb have se: "settled g src s" and bo: "bounded s" and du: "distances s u = Some (Dist d)"
    and oth: "\<forall>u' \<in> visited s. u' \<noteq> u \<longrightarrow> relaxed g s u' []"
    and ru: "relaxed g s u ((v, w) # rest)"
    by (simp_all add: midB_def e)
  from r [unfolded e] show ?thesis
  proof (cases rule: relax_edge_cases)
    case same
    have "\<exists>kv. distances s u = Some (Dist d) \<and> distances s v = Some (Dist kv) \<and> kv \<le> d + w"
    proof (cases "v \<in> visited s")
      case True
      with se obtain kv where "distances s v = Some (Dist kv)" "\<forall>k'. walk g src v k' \<longrightarrow> kv \<le> k'"
        by (auto simp: settled_def)
      with wv du show ?thesis by auto
    next
      case False
      with same(2) du show ?thesis by auto
    qed
    with ru have "relaxed g s u rest" by (rule relaxed_tail)
    with mb show ?thesis by (simp add: midB_def same(1))
  next
    case (update old)
    have vis: "visited t = visited s" by (simp add: update(4))
    have dt: "distances t x = (if x = v then Some (Dist (d + w)) else distances s x)" for x
      by (simp add: update(4))
    have qt: "set (pq t) = insert (d + w, v) (set (pq s))" by (simp add: update(4))
    have keep: "distances t x = distances s x" if "x \<in> visited s" for x
      using that update(1) by (auto simp: dt)
    have mono: "\<exists>kx'. distances t x = Some (Dist kx') \<and> kx' \<le> kx"
      if "distances s x = Some (Dist kx)" for x kx
    proof (cases "x = v")
      case True
      with that update(2,3) have "d + w < kx" by simp
      with True show ?thesis by (simp add: dt)
    next
      case False
      with that show ?thesis by (simp add: dt)
    qed
    have "settled g src t"
      using se keep unfolding settled_def vis by simp
    moreover have "bounded t"
      unfolding bounded_def qt
    proof (intro allI impI)
      fix k x assume "(k, x) \<in> insert (d + w, v) (set (pq s))"
      then show "\<exists>k'. distances t x = Some (Dist k') \<and> k' \<le> k"
      proof
        assume "(k, x) = (d + w, v)"
        then show ?thesis by (simp add: dt)
      next
        assume "(k, x) \<in> set (pq s)"
        with bo obtain k' where k': "distances s x = Some (Dist k')" "k' \<le> k"
          unfolding bounded_def by blast
        from mono [OF k'(1)] k'(2) show ?thesis by force
      qed
    qed
    moreover have "distances t u = Some (Dist d)" using du keep [OF uvis] by simp
    moreover have "\<forall>u' \<in> visited t. u' \<noteq> u \<longrightarrow> relaxed g t u' []"
      unfolding vis
    proof (intro ballI impI)
      fix u' assume u': "u' \<in> visited s" "u' \<noteq> u"
      with oth have "relaxed g s u' []" by simp
      then show "relaxed g t u' []" using keep [OF u'(1)] mono by (rule relaxed_mono)
    qed
    moreover have "relaxed g t u rest"
    proof -
      have "relaxed g t u ((v, w) # rest)" using ru keep [OF uvis] mono by (rule relaxed_mono)
      moreover have "\<exists>kv. distances t u = Some (Dist d) \<and> distances t v = Some (Dist kv) \<and> kv \<le> d + w"
        using du keep [OF uvis] by (simp add: dt)
      ultimately show ?thesis by (rule relaxed_tail)
    qed
    ultimately show ?thesis by (simp add: midB_def)
  qed
qed

lemma midAB_relax:
  assumes "midA g src u d es s \<and> midB g src u d es s" "relax u d es s = Inr t"
  shows "midA g src u d [] t \<and> midB g src u d [] t"
  using assms
proof (rule relax_invariant [where I = "\<lambda>es s. midA g src u d es s \<and> midB g src u d es s"])
  fix e es' t t'
  assume h: "midA g src u d (e # es') t \<and> midB g src u d (e # es') t" "relax_edge u d e t = Inr t'"
  from h(1) have ma: "midA g src u d (e # es') t" and mb: "midB g src u d (e # es') t" by simp_all
  from ma h(2) have "midA g src u d es' t'" by (rule midA_relax_edge)
  moreover from ma mb h(2) have "midB g src u d es' t'" by (rule midB_relax_edge)
  ultimately show "midA g src u d es' t' \<and> midB g src u d es' t'" ..
qed

lemma invB_step:
  assumes a: "invA g src s" and b: "invB g src s" and nn: "nonneg g"
    and nb: "nbrs (graph s) = nbrs g" and ne: "pq s \<noteq> []" and st: "step s = Inr t"
  shows "invB g src t"
proof -
  obtain d u where m: "Min (set (pq s)) = (d, u)" by (cases "Min (set (pq s))")
  define q where "q = remove1 (d, u) (pq s)"
  have q_sub: "set q \<subseteq> set (pq s)" unfolding q_def by (rule set_remove1_subset)
  from b have se: "settled g src s" and bo: "bounded s"
    and re: "\<forall>u \<in> visited s. relaxed g s u []"
    by (simp_all add: invB_def)
  show ?thesis
  proof (cases "u \<in> visited s")
    case True
    with step_stale [OF ne] st m have t: "t = s\<lparr>pq := q\<rparr>" by (simp add: q_def)
    have "settled g src t" using se by (simp add: settled_def t)
    moreover have "bounded t" using bo q_sub unfolding bounded_def t by auto
    moreover have "\<forall>u \<in> visited t. relaxed g t u []" using re by (simp add: relaxed_def t)
    ultimately show ?thesis by (simp add: invB_def)
  next
    case False
    define g' where "g' = snd (get_neighbors (graph s) u)"
    define s1 where "s1 = s\<lparr>pq := q, visited := insert u (visited s), graph := g'\<rparr>"
    from step_visit [OF ne] False st m
    have r: "relax u d (nbrs g u) s1 = Inr t" by (simp add: q_def s1_def g'_def nb)
    from popped_least [OF a b nn ne m False]
    have du: "distances s u = Some (Dist d)" and least: "\<forall>k'. walk g src u k' \<longrightarrow> d \<le> k'"
      by simp_all
    have ma: "midA g src u d (nbrs g u) s1"
      unfolding s1_def q_def using a ne m False by (rule midA_start)
    have "settled g src s1"
      using se du least by (auto simp: settled_def s1_def)
    moreover have "bounded s1" using bo q_sub unfolding bounded_def s1_def by auto
    moreover have "distances s1 u = Some (Dist d)" using du by (simp add: s1_def)
    moreover have "\<forall>u' \<in> visited s1. u' \<noteq> u \<longrightarrow> relaxed g s1 u' []"
      using re by (simp add: relaxed_def s1_def)
    moreover have "relaxed g s1 u (nbrs g u)" by (simp add: relaxed_def)
    ultimately have "midB g src u d (nbrs g u) s1" by (simp add: midB_def)
    with ma have "midA g src u d (nbrs g u) s1 \<and> midB g src u d (nbrs g u) s1" ..
    from midAB_relax [OF this r] have mt: "midB g src u d [] t" ..
    then have "\<forall>u' \<in> visited t. relaxed g t u' []" by (auto simp: midB_def)
    with mt show ?thesis by (simp add: invB_def midB_def)
  qed
qed

lemma invB_init: "invB g src (init g src)"
  by (simp add: invB_def settled_def bounded_def init_def)

lemma run_ends_nonneg:
  assumes ok: "graph_ok g" and nn: "nonneg g" and src: "src \<in> vertices g"
  shows "\<exists>r. dijkstra_loop (init g src) = Some (Inr r) \<and> pq r = [] \<and>
           basic g r \<and> invA g src r \<and> invB g src r"
proof -
  define n where "n = mu (init g src)"
  have b0: "basic g (init g src)" using src by (rule basic_init)
  have "mu (init g src) \<le> n" by (simp add: n_def)
  from run_total [OF ok b0 this] obtain r where r: "run n (init g src) = Inr r" "pq r = []"
    by blast
  have "basic g (init g src) \<and> invA g src (init g src) \<and> invB g src (init g src)"
    using b0 src by (simp add: invA_init invB_init)
  then have "basic g r \<and> invA g src r \<and> invB g src r" using r(1)
  proof (rule run_invariant)
    fix t t' assume a: "basic g t \<and> invA g src t \<and> invB g src t" "pq t \<noteq> []" "step t = Inr t'"
    from a(1) have bt: "basic g t" and at: "invA g src t" and bbt: "invB g src t" by simp_all
    from bt have nb: "nbrs (graph t) = nbrs g" by (simp add: basic_def)
    from step_basic [OF ok bt a(2)] a(3) have "basic g t'" by auto
    moreover from at nb a(2,3) have "invA g src t'" by (rule invA_step)
    moreover from at bbt nn nb a(2,3) have "invB g src t'" by (rule invB_step)
    ultimately show "basic g t' \<and> invA g src t' \<and> invB g src t'" by simp
  qed
  moreover have "dijkstra_loop (init g src) = Some (Inr r)" using r by (rule run_loop)
  ultimately show ?thesis using r(2) by blast
qed

lemma final_shortest:
  assumes a: "invA g src r" and b: "invB g src r" and nn: "nonneg g" and e: "pq r = []"
    and w: "walk g src v k'"
  shows "\<exists>k. distances r v = Some (Dist k) \<and> walk g src v k \<and> k \<le> k' \<and>
             (\<forall>k''. walk g src v k'' \<longrightarrow> k \<le> k'')"
proof -
  from frontier [OF a b nn w] e have vis: "v \<in> visited r" by auto
  with b obtain k where k: "distances r v = Some (Dist k)" "\<forall>k''. walk g src v k'' \<longrightarrow> k \<le> k''"
    by (auto simp: invB_def settled_def)
  from a k(1) have "walk g src v k" by (simp add: invA_def sound_def)
  with k w show ?thesis by blast
qed

section \<open>The claims\<close>

text \<open>
  C1. For a graph built with weights that are not negative and a source in it, the call
  returns a distance map over the vertices of the graph in which the source is at 0, every
  vertex reachable from the source is at the least total weight of a path from the source
  to it (there is a path of that weight and none of less), and every other vertex is at
  infinity.
\<close>

theorem dijkstra_shortest:
  assumes "\<forall>x \<in> set ops. nonneg_op x" and "src \<in> vertices (build ops)"
  shows "\<exists>d p g'. dijkstra (build ops) src = Some (Inr (d, p, g')) \<and>
           dom d = vertices (build ops) \<and>
           d src = Some (Dist 0) \<and>
           (\<forall>v. reachable (build ops) src v \<longrightarrow>
              (\<exists>k. d v = Some (Dist k) \<and> walk (build ops) src v k \<and>
                   (\<forall>k'. walk (build ops) src v k' \<longrightarrow> k \<le> k'))) \<and>
           (\<forall>v \<in> vertices (build ops). \<not> reachable (build ops) src v \<longrightarrow> d v = Some PosInf)"
proof -
  let ?g = "build ops"
  have nn: "nonneg ?g" using assms(1) by (rule build_nonneg)
  from run_ends_nonneg [OF build_ok nn assms(2)] obtain r where
    r: "dijkstra_loop (init ?g src) = Some (Inr r)" "pq r = []" "basic ?g r"
       "invA ?g src r" "invB ?g src r"
    by blast
  have res: "dijkstra ?g src = Some (Inr (distances r, previous r, graph r))"
    using r(1) by (rule dijkstra_of_loop)
  have dom: "dom (distances r) = vertices ?g" using r(3) by (simp add: basic_def)
  have reach: "\<exists>k. distances r v = Some (Dist k) \<and> walk ?g src v k \<and>
      (\<forall>k'. walk ?g src v k' \<longrightarrow> k \<le> k')" if "reachable ?g src v" for v
  proof -
    from that obtain k' where "walk ?g src v k'" by (auto simp: reachable_def)
    from final_shortest [OF r(4,5) nn r(2) this] show ?thesis by blast
  qed
  have "distances r src = Some (Dist 0)"
  proof -
    from final_shortest [OF r(4,5) nn r(2) walk_here] obtain k where
      k: "distances r src = Some (Dist k)" "walk ?g src src k" "k \<le> 0" by blast
    from walk_nonneg [OF nn k(2)] k(3) have "k = 0" by simp
    with k(1) show ?thesis by simp
  qed
  moreover have "\<forall>v \<in> vertices ?g. \<not> reachable ?g src v \<longrightarrow> distances r v = Some PosInf"
    using final_unreachable [OF r(4,3)] by blast
  ultimately show ?thesis using res dom reach by blast
qed

theorem dijkstra_shortest_witness:
  "nonneg_op (AddEdge (1::nat) 2 5) \<and>
   (1::nat) \<in> vertices (build [AddEdge (1::nat) 2 5]) \<and>
   (\<exists>d p g'. dijkstra (build [AddEdge (1::nat) 2 5]) 1 = Some (Inr (d, p, g')) \<and>
           dom d = vertices (build [AddEdge (1::nat) 2 5]) \<and>
           d 1 = Some (Dist 0) \<and>
           (\<forall>v. reachable (build [AddEdge (1::nat) 2 5]) 1 v \<longrightarrow>
              (\<exists>k. d v = Some (Dist k) \<and> walk (build [AddEdge (1::nat) 2 5]) 1 v k \<and>
                   (\<forall>k'. walk (build [AddEdge (1::nat) 2 5]) 1 v k' \<longrightarrow> k \<le> k'))) \<and>
           (\<forall>v \<in> vertices (build [AddEdge (1::nat) 2 5]).
              \<not> reachable (build [AddEdge (1::nat) 2 5]) 1 v \<longrightarrow> d v = Some PosInf))"
proof -
  have h1: "\<forall>x \<in> set [AddEdge (1::nat) 2 5]. nonneg_op x" by simp
  have h2: "(1::nat) \<in> vertices (build [AddEdge 1 2 5])"
    by (simp add: build_def add_edge_def Graph_def Let_def)
  have h0: "nonneg_op (AddEdge (1::nat) 2 5)" by simp
  from h0 h2 dijkstra_shortest [OF h1 h2] show ?thesis by blast
qed

text \<open>
  C2, as the code computes it. On the sample graph with source \<open>A\<close> the distances are
  \<open>A = 0\<close>, \<open>B = 3\<close>, \<open>C = 2\<close>, \<open>D = 8\<close>, \<open>E = 10\<close>, \<open>F = 13\<close>, and
  \<open>reconstruct_path\<close> from \<open>A\<close> to \<open>F\<close> returns \<open>[A, C, B, D, E, F]\<close>, of total
  weight 13.
\<close>

theorem sample_distances:
  "distance_to create_sample_graph ''A'' ''A'' = Some (Dist 0) \<and>
   distance_to create_sample_graph ''A'' ''B'' = Some (Dist 3) \<and>
   distance_to create_sample_graph ''A'' ''C'' = Some (Dist 2) \<and>
   distance_to create_sample_graph ''A'' ''D'' = Some (Dist 8) \<and>
   distance_to create_sample_graph ''A'' ''E'' = Some (Dist 10) \<and>
   distance_to create_sample_graph ''A'' ''F'' = Some (Dist 13) \<and>
   path_to create_sample_graph ''A'' ''F'' =
     Some (Inr (Some [''A'', ''C'', ''B'', ''D'', ''E'', ''F''])) \<and>
   path_weight create_sample_graph [''A'', ''C'', ''B'', ''D'', ''E'', ''F''] = Some 13"
  by code_simp

text \<open>
  The distance of \<open>D\<close> is not 7, the value the specification gives: the cheapest way to
  \<open>D\<close> is \<open>A, C, B, D\<close> with weight \<open>2 + 1 + 5\<close>.
\<close>

theorem sample_counterexample:
  "distance_to create_sample_graph ''A'' ''D'' \<noteq> Some (Dist 7)"
  by code_simp

text \<open>
  C4. After \<open>add_edge(u, v, w)\<close>, whatever calls came before and come after, both ends
  are vertices, \<open>(v, w)\<close> is in the neighbour list of \<open>u\<close> and \<open>(u, w)\<close> in that of
  \<open>v\<close>; and in every built graph an entry is in one list exactly when its mirror image
  is in the other.
\<close>

theorem add_edge_symmetric:
  "u \<in> vertices (build (ops1 @ AddEdge u v w # ops2)) \<and>
   v \<in> vertices (build (ops1 @ AddEdge u v w # ops2)) \<and>
   (v, w) \<in> set (nbrs (build (ops1 @ AddEdge u v w # ops2)) u) \<and>
   (u, w) \<in> set (nbrs (build (ops1 @ AddEdge u v w # ops2)) v) \<and>
   (((b, c) \<in> set (nbrs (build ops) a)) = ((a, c) \<in> set (nbrs (build ops) b)))"
proof -
  let ?g = "add_edge (foldl apply_op Graph ops1) u v w"
  have b: "build (ops1 @ AddEdge u v w # ops2) = foldl apply_op ?g ops2"
    by (simp add: build_def)
  have "u \<in> vertices ?g" "v \<in> vertices ?g"
    by (simp_all add: vertices_add_edge)
  moreover have "(v, w) \<in> set (nbrs ?g u)" "(u, w) \<in> set (nbrs ?g v)"
    by (simp_all add: nbrs_add_edge)
  ultimately show ?thesis
    unfolding b using build_symmetric [of b c ops a]
    by (simp add: foldl_apply_op_nbrs foldl_apply_op_vertices)
qed

text \<open>
  C9, as the code does it. A call that returns leaves the vertex set as it was, leaves
  every list stored in the adjacency dictionary as it was, and adds at most keys that hold
  the empty list, so that every lookup of neighbours yields what it yielded before.
\<close>

theorem graph_after_dijkstra:
  assumes "dijkstra g src = Some (Inr (d, p, g'))"
  shows "vertices g' = vertices g \<and> nbrs g' = nbrs g \<and>
         (\<forall>v l. edges g v = Some l \<longrightarrow> edges g' v = Some l) \<and>
         (\<forall>v. edges g v = None \<longrightarrow> edges g' v = None \<or> edges g' v = Some [])"
proof -
  from assms obtain r where r: "dijkstra_loop (init g src) = Some (Inr r)" "g' = graph r"
    by (rule dijkstra_Inr)
  have "graph_kept g (graph (init g src))" by (simp add: init_def graph_kept_refl)
  with r(1) have "graph_kept g (graph r) \<and> pq r = []"
    by (rule loop_invariant) (rule step_graph_kept)
  then have k: "graph_kept g g'" by (simp add: r(2))
  then have "nbrs g' = nbrs g" by (rule graph_kept_nbrs)
  moreover have "vertices g' = vertices g" using k by (simp add: graph_kept_def)
  ultimately show ?thesis using k unfolding graph_kept_def by blast
qed

theorem graph_after_dijkstra_witness:
  "\<exists>d p g'. dijkstra (build [AddVertex (1::nat)]) 1 = Some (Inr (d, p, g')) \<and>
     vertices g' = vertices (build [AddVertex (1::nat)]) \<and>
     nbrs g' = nbrs (build [AddVertex (1::nat)]) \<and>
     (\<forall>v l. edges (build [AddVertex (1::nat)]) v = Some l \<longrightarrow> edges g' v = Some l) \<and>
     (\<forall>v. edges (build [AddVertex (1::nat)]) v = None \<longrightarrow> edges g' v = None \<or> edges g' v = Some [])"
proof -
  have "\<exists>d p g'. dijkstra (build [AddVertex (1::nat)]) 1 = Some (Inr (d, p, g'))"
    by (simp add: dijkstra_def dijkstra_loop.simps init_def step_def heappop_def
        get_neighbors_def build_def add_vertex_def Graph_def)
  then obtain d p g' where h: "dijkstra (build [AddVertex (1::nat)]) 1 = Some (Inr (d, p, g'))"
    by blast
  from graph_after_dijkstra [OF h] h show ?thesis by blast
qed

text \<open>
  The key set does change: after \<open>add_vertex('A')\<close> alone the dictionary has no key
  \<open>A\<close>, and after \<open>dijkstra(graph, 'A')\<close> it has, with the empty list.
\<close>

theorem graph_changed_counterexample:
  "edges (build [AddVertex ''A'']) ''A'' = None \<and>
   edges_after (build [AddVertex ''A'']) ''A'' ''A'' = Some (Some [])"
  by code_simp

text \<open>
  C3. In any state of the computation, a vertex in the visited set stays in it and keeps its
  entry of the distance map: over any number of further passes of the main loop, and over
  each single pass of the inner loop, where alone the map is written. No vertex is added to
  the visited set a second time: a pass of the main loop that pops a visited vertex changes
  nothing but the queue, from which it removes the popped entry; a pass that pops an
  unvisited vertex adds that vertex, and the visited set changes in no other way; so the
  vertices passed to \<open>visited.add\<close> over any number of passes from any state are
  pairwise different and none of them was visited before.
\<close>

theorem visited_is_final:
  "(run m s = Inr s' \<longrightarrow> v \<in> visited s \<longrightarrow> v \<in> visited s' \<and> distances s' v = distances s v) \<and>
   (relax_edge u d e s = Inr r \<longrightarrow> v \<in> visited s \<longrightarrow>
      v \<in> visited r \<and> distances r v = distances s v) \<and>
   (step s = Inr t \<longrightarrow>
      visited t = visited s \<or> (\<exists>x. x \<notin> visited s \<and> visited t = insert x (visited s))) \<and>
   (step s = Inr t \<longrightarrow> snd (Min (set (pq s))) \<in> visited s \<longrightarrow>
      t = s\<lparr>pq := remove1 (Min (set (pq s))) (pq s)\<rparr>) \<and>
   (step s = Inr t \<longrightarrow> snd (Min (set (pq s))) \<notin> visited s \<longrightarrow>
      visited t = insert (snd (Min (set (pq s)))) (visited s)) \<and>
   (run m s = Inr s' \<longrightarrow>
      distinct (marked m s) \<and> set (marked m s) = visited s' - visited s)"
proof -
  have c1: "run m s = Inr s' \<longrightarrow> v \<in> visited s \<longrightarrow>
      v \<in> visited s' \<and> distances s' v = distances s v"
    using run_visited_kept by blast
  have c2: "relax_edge u d e s = Inr r \<longrightarrow> v \<in> visited s \<longrightarrow>
      v \<in> visited r \<and> distances r v = distances s v"
  proof (intro impI)
    assume a: "relax_edge u d e s = Inr r" "v \<in> visited s"
    then have "distances r v = distances s v" by (rule relax_edge_visited_kept)
    moreover have "v \<in> visited r" using relax_edge_frame(1) [OF a(1)] a(2) by simp
    ultimately show "v \<in> visited r \<and> distances r v = distances s v" by simp
  qed
  have c3: "step s = Inr t \<longrightarrow>
      visited t = visited s \<or> (\<exists>x. x \<notin> visited s \<and> visited t = insert x (visited s))"
  proof
    assume "step s = Inr t"
    from step_visited [OF this]
    show "visited t = visited s \<or> (\<exists>x. x \<notin> visited s \<and> visited t = insert x (visited s))"
      by blast
  qed
  have c4: "step s = Inr t \<longrightarrow> snd (Min (set (pq s))) \<in> visited s \<longrightarrow>
      t = s\<lparr>pq := remove1 (Min (set (pq s))) (pq s)\<rparr>"
  proof (intro impI)
    assume a: "step s = Inr t" "snd (Min (set (pq s))) \<in> visited s"
    from a(1) have "pq s \<noteq> []" by (rule step_nonempty)
    from step_stale [OF this a(2)] a(1)
    show "t = s\<lparr>pq := remove1 (Min (set (pq s))) (pq s)\<rparr>" by simp
  qed
  have c5: "step s = Inr t \<longrightarrow> snd (Min (set (pq s))) \<notin> visited s \<longrightarrow>
      visited t = insert (snd (Min (set (pq s)))) (visited s)"
  proof (intro impI)
    assume a: "step s = Inr t" "snd (Min (set (pq s))) \<notin> visited s"
    from step_visited_eq [OF a(1)] a(2)
    show "visited t = insert (snd (Min (set (pq s)))) (visited s)" by simp
  qed
  have c6: "run m s = Inr s' \<longrightarrow>
      distinct (marked m s) \<and> set (marked m s) = visited s' - visited s"
    using marked_run by blast
  from c1 c2 c3 c4 c5 c6 show ?thesis by (intro conjI)
qed

theorem visited_is_final_witness:
  "\<exists>s' r t t2.
     run 1 after_first_pass = Inr s' \<and> 1 \<in> visited after_first_pass \<and>
     (1 \<in> visited s' \<and> distances s' 1 = distances after_first_pass 1) \<and>
     relax_edge 2 5 (1, 5) after_first_pass = Inr r \<and>
     (1 \<in> visited r \<and> distances r 1 = distances after_first_pass 1) \<and>
     step after_first_pass = Inr t \<and>
     (visited t = visited after_first_pass \<or>
      (\<exists>x. x \<notin> visited after_first_pass \<and> visited t = insert x (visited after_first_pass))) \<and>
     snd (Min (set (pq after_first_pass))) \<notin> visited after_first_pass \<and>
     visited t = insert (snd (Min (set (pq after_first_pass)))) (visited after_first_pass) \<and>
     distinct (marked 1 after_first_pass) \<and>
     set (marked 1 after_first_pass) = visited s' - visited after_first_pass \<and>
     step stale_entry_state = Inr t2 \<and>
     snd (Min (set (pq stale_entry_state))) \<in> visited stale_entry_state \<and>
     t2 = stale_entry_state\<lparr>pq := remove1 (Min (set (pq stale_entry_state))) (pq stale_entry_state)\<rparr>"
proof -
  have v: "1 \<in> visited after_first_pass" by (simp add: after_first_pass_def)
  have "\<exists>r. relax_edge 2 5 (1, 5) after_first_pass = Inr r"
    by (simp add: relax_edge_def after_first_pass_def)
  then obtain r where r: "relax_edge 2 5 (1, 5) after_first_pass = Inr r" by blast
  have "\<exists>t. step after_first_pass = Inr t"
    by (simp add: step_def heappop_def after_first_pass_def get_neighbors_def build_def
        add_edge_def Graph_def nbrs_def Let_def relax_edge_def)
  then obtain t where t: "step after_first_pass = Inr t" by blast
  have "pq after_first_pass \<noteq> []" by (simp add: after_first_pass_def)
  with t have s': "run 1 after_first_pass = Inr t" by simp
  have nv: "snd (Min (set (pq after_first_pass))) \<notin> visited after_first_pass"
    by (simp add: after_first_pass_def)
  have "\<exists>t2. step stale_entry_state = Inr t2"
    by (simp add: step_def heappop_def stale_entry_state_def)
  then obtain t2 where t2: "step stale_entry_state = Inr t2" by blast
  have sv: "snd (Min (set (pq stale_entry_state))) \<in> visited stale_entry_state"
    by (simp add: stale_entry_state_def)
  note a = visited_is_final [of 1 after_first_pass t 1 2 5 "(1, 5)" r t]
  note b = visited_is_final [where s = stale_entry_state and t = t2]
  from a v r t s' nv have
    "run 1 after_first_pass = Inr t \<and> 1 \<in> visited after_first_pass \<and>
     (1 \<in> visited t \<and> distances t 1 = distances after_first_pass 1) \<and>
     relax_edge 2 5 (1, 5) after_first_pass = Inr r \<and>
     (1 \<in> visited r \<and> distances r 1 = distances after_first_pass 1) \<and>
     step after_first_pass = Inr t \<and>
     (visited t = visited after_first_pass \<or>
      (\<exists>x. x \<notin> visited after_first_pass \<and> visited t = insert x (visited after_first_pass))) \<and>
     snd (Min (set (pq after_first_pass))) \<notin> visited after_first_pass \<and>
     visited t = insert (snd (Min (set (pq after_first_pass)))) (visited after_first_pass) \<and>
     distinct (marked 1 after_first_pass) \<and>
     set (marked 1 after_first_pass) = visited t - visited after_first_pass"
    by blast
  moreover from b t2 sv have
    "t2 = stale_entry_state\<lparr>pq := remove1 (Min (set (pq stale_entry_state))) (pq stale_entry_state)\<rparr>"
    by blast
  ultimately show ?thesis using t2 sv by blast
qed

text \<open>
  C8. A second call on the same graph object and the same source, that is on the graph as
  the first call left it, returns the same distance map and the same predecessor map.
  (That one call on one graph has one result holds of every function.)
\<close>

theorem dijkstra_deterministic:
  assumes "dijkstra g src = Some (Inr (d, p, g'))"
  shows "\<exists>g''. dijkstra g' src = Some (Inr (d, p, g''))"
proof -
  from assms obtain r where r: "dijkstra_loop (init g src) = Some (Inr r)"
    "d = distances r" "p = previous r" "g' = graph r"
    by (rule dijkstra_Inr)
  have k: "graph_kept g g'" unfolding r(4) using r(1) by (rule graph_kept_after)
  then have n: "nbrs g' = nbrs (graph (init g src))" by (simp add: graph_kept_nbrs init_def)
  have v: "vertices g' = vertices g" using k by (simp add: graph_kept_def)
  have i: "init g' src = (init g src)\<lparr>graph := g'\<rparr>" by (simp add: init_def v)
  from loop_graph_indep [OF r(1)] n obtain g3 where
    "dijkstra_loop ((init g src)\<lparr>graph := g'\<rparr>) = Some (map_sum id (\<lambda>r. r\<lparr>graph := g3\<rparr>) (Inr r))"
    by blast
  then have "dijkstra g' src = Some (Inr (d, p, g3))"
    by (simp add: dijkstra_def i r(2,3))
  then show ?thesis ..
qed

theorem dijkstra_deterministic_witness:
  "\<exists>d p g'. dijkstra (build [AddVertex (1::nat)]) 1 = Some (Inr (d, p, g')) \<and>
     (\<exists>g''. dijkstra g' 1 = Some (Inr (d, p, g'')))"
proof -
  have "\<exists>d p g'. dijkstra (build [AddVertex (1::nat)]) 1 = Some (Inr (d, p, g'))"
    by (simp add: dijkstra_def dijkstra_loop.simps init_def step_def heappop_def
        get_neighbors_def build_def add_vertex_def Graph_def)
  then obtain d p g' where h: "dijkstra (build [AddVertex (1::nat)]) 1 = Some (Inr (d, p, g'))"
    by blast
  from dijkstra_deterministic [OF h] h show ?thesis by blast
qed

text \<open>
  C10. When the source is not a vertex of a built graph, the call returns without an error:
  the distance map holds 0 for the source and infinity for every vertex of the graph, and
  no other key; the predecessor map holds \<open>None\<close> for every vertex of the graph and has
  no entry for the source.
\<close>

theorem source_outside_graph:
  assumes "src \<notin> vertices (build ops)"
  shows "\<exists>d p g'. dijkstra (build ops) src = Some (Inr (d, p, g')) \<and>
           d src = Some (Dist 0) \<and>
           (\<forall>v \<in> vertices (build ops). d v = Some PosInf) \<and>
           dom d = insert src (vertices (build ops)) \<and>
           (\<forall>v \<in> vertices (build ops). p v = Some None) \<and>
           p src = None \<and> dom p = vertices (build ops)"
proof -
  let ?g = "build ops"
  have "nbrs ?g src = []" using build_ok assms by (rule nbrs_outside)
  then have "dijkstra ?g src = Some (Inr (distances (init ?g src), previous (init ?g src),
      snd (get_neighbors ?g src)))"
    by (simp add: dijkstra_def loop_outside)
  moreover have "distances (init ?g src) src = Some (Dist 0)" by (simp add: init_def)
  moreover have "\<forall>v \<in> vertices ?g. distances (init ?g src) v = Some PosInf"
    using assms by (auto simp: init_def)
  moreover have "dom (distances (init ?g src)) = insert src (vertices ?g)"
    by (auto simp: init_def split: if_splits)
  moreover have "\<forall>v \<in> vertices ?g. previous (init ?g src) v = Some None"
    by (simp add: init_def)
  moreover have "previous (init ?g src) src = None" using assms by (simp add: init_def)
  moreover have "dom (previous (init ?g src)) = vertices ?g"
    by (auto simp: init_def split: if_splits)
  ultimately show ?thesis by blast
qed

theorem source_outside_graph_witness:
  "(3::nat) \<notin> vertices (build [AddEdge 1 2 5]) \<and>
   (\<exists>d p g'. dijkstra (build [AddEdge 1 2 5]) (3::nat) = Some (Inr (d, p, g')) \<and>
           d 3 = Some (Dist 0) \<and>
           (\<forall>v \<in> vertices (build [AddEdge 1 2 5]). d v = Some PosInf) \<and>
           dom d = insert 3 (vertices (build [AddEdge 1 2 5])) \<and>
           (\<forall>v \<in> vertices (build [AddEdge 1 2 5]). p v = Some None) \<and>
           p 3 = None \<and> dom p = vertices (build [AddEdge 1 2 5]))"
proof -
  have h: "(3::nat) \<notin> vertices (build [AddEdge 1 2 5])"
    by (simp add: build_def add_edge_def Graph_def Let_def)
  from h source_outside_graph [OF h] show ?thesis by blast
qed

text \<open>
  C5. For a built graph and a source in it, a vertex of the graph that no path from the
  source reaches ends the run at distance infinity with predecessor \<open>None\<close>, and
  \<open>reconstruct_path\<close> from the source to it returns \<open>None\<close>, the signal that there is no
  path: neither a path nor an exception.
\<close>

theorem unreachable_vertex:
  assumes "src \<in> vertices (build ops)" "v \<in> vertices (build ops)"
    and "\<not> reachable (build ops) src v"
  shows "\<exists>d p g'. dijkstra (build ops) src = Some (Inr (d, p, g')) \<and>
           d v = Some PosInf \<and> p v = Some None \<and>
           reconstruct_path p src v = Some (Inr None)"
proof -
  from assms(1) obtain r where
    r: "dijkstra (build ops) src = Some (Inr (distances r, previous r, graph r))"
       "basic (build ops) r" "invA (build ops) src r"
    by (rule dijkstra_ends)
  from final_unreachable [OF r(3,2) assms(2,3)]
  have a: "distances r v = Some PosInf" "previous r v = Some None" by simp_all
  have "reachable (build ops) src src" by (auto simp: reachable_def intro: walk_here)
  with assms(3) have "v \<noteq> src" by auto
  with a(2) have "reconstruct_path (previous r) src v = Some (Inr None)"
    by (simp add: reconstruct_path_root)
  with r(1) a show ?thesis by blast
qed

theorem unreachable_vertex_witness:
  "(1::nat) \<in> vertices (build [AddVertex (1::nat), AddVertex 3]) \<and>
   (3::nat) \<in> vertices (build [AddVertex (1::nat), AddVertex 3]) \<and>
   \<not> reachable (build [AddVertex (1::nat), AddVertex 3]) 1 3 \<and>
   (\<exists>d p g'. dijkstra (build [AddVertex (1::nat), AddVertex 3]) 1 = Some (Inr (d, p, g')) \<and>
           d 3 = Some PosInf \<and> p 3 = Some None \<and>
           reconstruct_path p 1 3 = Some (Inr None))"
proof -
  define g where "g = build [AddVertex (1::nat), AddVertex 3]"
  have n: "nbrs g u = []" for u
    by (simp add: g_def nbrs_def build_def add_vertex_def Graph_def)
  have h1: "1 \<in> vertices g" and h2: "3 \<in> vertices g"
    by (simp_all add: g_def build_def add_vertex_def Graph_def)
  have "x = a" if "walk g a x k" for a x k
    using that by (induction rule: walk.induct) (simp_all add: n)
  then have h3: "\<not> reachable g 1 3" by (fastforce simp: reachable_def)
  from h1 h2 h3 unreachable_vertex [of 1 "[AddVertex (1::nat), AddVertex 3]" 3]
  show ?thesis unfolding g_def by blast
qed

text \<open>
  C6. For a built graph and a source in it, \<open>reconstruct_path\<close> on the predecessor map of
  the run, from the source to the source, returns the one-element list of the source.
\<close>

theorem path_to_source:
  assumes "src \<in> vertices (build ops)"
  shows "\<exists>d p g'. dijkstra (build ops) src = Some (Inr (d, p, g')) \<and>
           reconstruct_path p src src = Some (Inr (Some [src]))"
proof -
  from assms obtain r where
    r: "dijkstra (build ops) src = Some (Inr (distances r, previous r, graph r))"
       "invA (build ops) src r"
    by (rule dijkstra_ends)
  from r(2) have "previous r src = Some None" by (simp add: invA_def source_first_def)
  then have "reconstruct_path (previous r) src src = Some (Inr (Some [src]))"
    by (simp add: reconstruct_path_root)
  with r(1) show ?thesis by blast
qed

theorem path_to_source_witness:
  "(1::nat) \<in> vertices (build [AddEdge (1::nat) 2 5]) \<and>
   (\<exists>d p g'. dijkstra (build [AddEdge (1::nat) 2 5]) 1 = Some (Inr (d, p, g')) \<and>
           reconstruct_path p 1 1 = Some (Inr (Some [1])))"
proof -
  have h: "(1::nat) \<in> vertices (build [AddEdge 1 2 5])"
    by (simp add: build_def add_edge_def Graph_def Let_def)
  from h path_to_source [OF h] show ?thesis by blast
qed

text \<open>
  C7. For a built graph with \<open>E\<close> calls of \<open>add_edge\<close> and a source in it, the main loop
  ends with an empty queue within \<open>2E + 1\<close> passes, and the call returns. Each pass pops
  one entry, so at most \<open>2E + 1\<close> entries are ever pushed, the first of them the source
  and every other one by the relaxation of an edge from one of its two ends. The vertices
  marked visited are the vertices reachable from the source, each marked once.
\<close>

theorem dijkstra_terminates:
  assumes "src \<in> vertices (build ops)"
  shows "\<exists>r. run (Suc (2 * edge_calls ops)) (init (build ops) src) = Inr r \<and> pq r = [] \<and>
           dijkstra_loop (init (build ops) src) = Some (Inr r) \<and>
           dijkstra (build ops) src = Some (Inr (distances r, previous r, graph r)) \<and>
           visited r = {v. reachable (build ops) src v} \<and>
           set (marked (Suc (2 * edge_calls ops)) (init (build ops) src)) =
             {v. reachable (build ops) src v} \<and>
           distinct (marked (Suc (2 * edge_calls ops)) (init (build ops) src))"
proof -
  let ?g = "build ops" and ?n = "Suc (2 * edge_calls ops)"
  have "Suc (\<Sum>v \<in> vertices ?g. length (nbrs ?g v)) \<le> ?n" by (simp add: degree_sum)
  from run_ends [OF build_ok assms this] obtain r where
    r: "run ?n (init ?g src) = Inr r" "pq r = []" "dijkstra_loop (init ?g src) = Some (Inr r)"
       "invA ?g src r"
    by blast
  have v: "visited r = {v. reachable ?g src v}" using r(4,2) by (rule final_visited)
  have "visited (init ?g src) = {}" by (simp add: init_def)
  with marked_run [OF r(1)] v
  have "set (marked ?n (init ?g src)) = {v. reachable ?g src v}"
    "distinct (marked ?n (init ?g src))" by simp_all
  moreover have "dijkstra ?g src = Some (Inr (distances r, previous r, graph r))"
    using r(3) by (rule dijkstra_of_loop)
  ultimately show ?thesis using r v by blast
qed

theorem dijkstra_terminates_witness:
  "(1::nat) \<in> vertices (build [AddEdge (1::nat) 2 5]) \<and>
   (\<exists>r. run (Suc (2 * edge_calls [AddEdge (1::nat) 2 5])) (init (build [AddEdge (1::nat) 2 5]) 1) = Inr r \<and>
           pq r = [] \<and>
           dijkstra_loop (init (build [AddEdge (1::nat) 2 5]) 1) = Some (Inr r) \<and>
           dijkstra (build [AddEdge (1::nat) 2 5]) 1 = Some (Inr (distances r, previous r, graph r)) \<and>
           visited r = {v. reachable (build [AddEdge (1::nat) 2 5]) 1 v} \<and>
           set (marked (Suc (2 * edge_calls [AddEdge (1::nat) 2 5])) (init (build [AddEdge (1::nat) 2 5]) 1)) =
             {v. reachable (build [AddEdge (1::nat) 2 5]) 1 v} \<and>
           distinct (marked (Suc (2 * edge_calls [AddEdge (1::nat) 2 5])) (init (build [AddEdge (1::nat) 2 5]) 1)))"
proof -
  have h: "(1::nat) \<in> vertices (build [AddEdge (1::nat) 2 5])"
    by (simp add: build_def add_edge_def Graph_def Let_def)
  from h dijkstra_terminates [OF h] show ?thesis by blast
qed

end
